theory Spec2Isabelle
  imports Main "HOL-Library.Sublist" "HOL-Library.AList"
begin

section \<open>Graph tables: the model of reftools/lib/graphtab.py\<close>

text \<open>
  The module is Python 2. A \<open>str\<close> is a byte string, here a \<open>string\<close>. Exceptions are
  values of the type \<open>error\<close>; a function that can raise returns \<open>error + 'a\<close> with
  \<open>Inl\<close> for the exception. What the module prints on standard output is left out.
\<close>

datatype error =
    ValueError string
  | KeyError
  | ObsmodeError string
  | RuntimeError string
  | IOError
  | UnicodeDecodeError
  | AttributeError
  | IndexError

subsection \<open>Strings\<close>

text \<open>\<open>s.split(sep)\<close> for a separator of one character: never an empty list.\<close>

fun py_split :: "char \<Rightarrow> string \<Rightarrow> string list" where
  "py_split sep [] = [[]]"
| "py_split sep (c # cs) =
     (if c = sep then [] # py_split sep cs
      else (case py_split sep cs of
              [] \<Rightarrow> [[c]]
            | t # ts \<Rightarrow> (c # t) # ts))"

text \<open>
  \<open>s.replace(old, new)\<close>: the occurrences of \<open>old\<close> are found from left to right and do
  not overlap; the text that replaces one is not searched again. For an empty \<open>old\<close>
  Python puts \<open>new\<close> in front of every character and at the end.
\<close>

function py_replace :: "string \<Rightarrow> string \<Rightarrow> string \<Rightarrow> string" where
  "py_replace old new s =
     (if old = [] then new @ concat (map (\<lambda>c. c # new) s)
      else if s = [] then []
      else if prefix old s then new @ py_replace old new (drop (length old) s)
      else hd s # py_replace old new (tl s))"
  by pat_completeness auto
termination
  by (relation "measure (\<lambda>(old, new, s). length s)") auto

declare py_replace.simps [simp del]

text \<open>\<open>sub in s\<close> on strings: \<open>sub\<close> occurs in \<open>s\<close> as a contiguous piece.\<close>

fun py_contains :: "string \<Rightarrow> string \<Rightarrow> bool" where
  "py_contains sub [] = (sub = [])"
| "py_contains sub (c # cs) = (if prefix sub (c # cs) then True else py_contains sub cs)"

text \<open>\<open>s.upper()\<close> on a byte string in the C locale: the bytes \<open>a\<close> to \<open>z\<close> change.\<close>

definition upper_char :: "char \<Rightarrow> char" where
  "upper_char c =
     (let n = (of_char c :: nat) in if 97 \<le> n \<and> n \<le> 122 then char_of (n - 32) else c)"

definition py_upper :: "string \<Rightarrow> string" where
  "py_upper s = map upper_char s"

text \<open>
  \<open>unicode(s)\<close> decodes a byte string as ASCII and raises UnicodeDecodeError on a byte
  above 127; the decoded text has the same characters.
\<close>

definition py_unicode :: "string \<Rightarrow> error + string" where
  "py_unicode s = (if list_all (\<lambda>c. (of_char c :: nat) < 128) s then Inr s else Inl UnicodeDecodeError)"

subsection \<open>Sets and dictionaries\<close>

text \<open>
  A Python set is a list that holds its elements. The order of the list has no meaning:
  the operations below give the same set for every order, \<open>len\<close> counts the distinct
  elements, and where the module iterates over a set the order of the iteration is not
  that of the list but the one the interpreter chooses (\<open>set_order\<close> below).
\<close>

type_synonym 'a pyset = "'a list"

definition pyset_of_list :: "'a list \<Rightarrow> 'a pyset" where
  "pyset_of_list xs = remdups xs"

definition pyset_len :: "'a pyset \<Rightarrow> nat" where
  "pyset_len s = length (remdups s)"

definition pyset_add :: "'a \<Rightarrow> 'a pyset \<Rightarrow> 'a pyset" where
  "pyset_add x s = List.insert x s"

definition pyset_remove :: "'a \<Rightarrow> 'a pyset \<Rightarrow> error + 'a pyset" where
  "pyset_remove x s = (if x \<in> set s then Inr (removeAll x s) else Inl KeyError)"

definition pyset_inter :: "'a pyset \<Rightarrow> 'a pyset \<Rightarrow> 'a pyset" where
  "pyset_inter a b = filter (\<lambda>x. x \<in> set b) a"

text \<open>
  A dict is an association list; \<open>dict_set\<close> replaces the value of a key that is present
  and puts a new key last, so a dict built with it holds every key once. The order of the
  list stands for the order in which the interpreter iterates over the dict, which
  follows the hash table and not the order of insertion. The module iterates over a dict
  in one place, the loop of \<open>recurse\<close> over the edges of a node (\<open>dict_values\<close>). What is
  proved about it holds for every heap, so for every order of the edges of a node, and
  the tables on which \<open>recurse\<close> is evaluated below have nodes whose edges give the same
  result in every order.
\<close>

type_synonym ('k, 'v) dict = "('k \<times> 'v) list"

definition dict_get :: "('k, 'v) dict \<Rightarrow> 'k \<Rightarrow> 'v option" where
  "dict_get d k = map_of d k"

definition dict_set :: "('k, 'v) dict \<Rightarrow> 'k \<Rightarrow> 'v \<Rightarrow> ('k, 'v) dict" where
  "dict_set d k v = AList.update k v d"

definition dict_has :: "('k, 'v) dict \<Rightarrow> 'k \<Rightarrow> bool" where
  "dict_has d k = (map_of d k \<noteq> None)"

definition dict_values :: "('k, 'v) dict \<Rightarrow> 'v list" where
  "dict_values d = map snd d"

definition dict_len :: "('k, 'v) dict \<Rightarrow> nat" where
  "dict_len d = length d"

subsection \<open>Edge and Node\<close>

text \<open>
  Nodes are objects that refer to each other through their edges, and a table may hold a
  cycle. An object reference is a number, and the heap gives the Node behind each one.
\<close>

type_synonym ref = nat

record edge =
  kwd :: string
  optical :: "string option"
  thermal :: "string option"
  filename :: "string option"
  pvar :: "string option"
  destination :: "ref option"

text \<open>\<open>Edge(kwd, [optical, thermal, filename, pvar], outnode)\<close>\<close>

definition Edge :: "string \<Rightarrow> string option \<times> string option \<times> string option \<times> string option
    \<Rightarrow> ref option \<Rightarrow> edge" where
  "Edge k contents outnode =
     (case contents of (opt, th, fname, pv) \<Rightarrow>
        \<lparr>kwd = k, optical = opt, thermal = th, filename = fname, pvar = pv,
         destination = outnode\<rparr>)"

record node =
  name :: string
  edges :: "(string, edge) dict"
  edgeset :: "string pyset"

type_synonym heap = "ref \<Rightarrow> node"

definition Node :: "string \<Rightarrow> node" where
  "Node nm = \<lparr>name = nm, edges = [], edgeset = []\<rparr>"

definition add_edge :: "node \<Rightarrow> edge \<Rightarrow> node" where
  "add_edge self e =
     self\<lparr>edges := dict_set (edges self) (kwd e) e,
          edgeset := pyset_add (kwd e) (edgeset self)\<rparr>"

text \<open>The edge that marks the end of a path: \<open>Edge('default',[None,None,None,None],None)\<close>.\<close>

definition sentinel :: edge where
  "sentinel = Edge ''default'' (None, None, None, None) None"

definition ambiguous :: error where
  "ambiguous = ValueError ''Ambiguous...Too many edges match. Check for problems with graph table.''"

text \<open>
  \<open>Node.select_edge(kwdset, partial, count)\<close>. \<open>match.pop()\<close> is called on a set of one
  element and gives that element. \<open>self.edges[k]\<close> raises KeyError for a missing key.
\<close>

definition select_edge :: "node \<Rightarrow> string pyset \<Rightarrow> bool \<Rightarrow> nat \<Rightarrow> error + edge" where
  "select_edge self kwdset partial count =
     (let match = pyset_inter (edgeset self) kwdset in
      if 1 < pyset_len match then Inl ambiguous
      else if pyset_len match = 1 then
        (case dict_get (edges self) (hd match) of
           None \<Rightarrow> Inl KeyError
         | Some ans \<Rightarrow> Inr ans)
      else if dict_has (edges self) ''default'' then
        (if (if \<not> partial then True else partial \<and> count < pyset_len kwdset) then
           (case dict_get (edges self) ''default'' of
              None \<Rightarrow> Inl KeyError
            | Some ans \<Rightarrow> Inr ans)
         else Inr sentinel)
      else Inr sentinel)"

text \<open>The invariant of a Node: \<open>edgeset\<close> holds the keys of \<open>edges\<close>.\<close>

definition node_inv :: "node \<Rightarrow> bool" where
  "node_inv n = (set (edgeset n) = set (map fst (edges n)))"

subsection \<open>Path\<close>

text \<open>
  The values of \<open>Path._params\<close>: the text after \<open>#\<close> that \<open>traverse\<close> stores, or the list
  of floats that \<open>append\<close> stores. A float is a value of the type variable \<open>'f\<close>.
\<close>

datatype 'f pval = PStr string | PList "'f list"

record 'f path =
  path_name :: string
  edgelist :: "edge list"
  params :: "(string, 'f pval) dict"
  offset :: "string option"

definition Path :: "string \<Rightarrow> (string, 'f pval) dict \<Rightarrow> 'f path" where
  "Path obsmode ps = \<lparr>path_name = obsmode, edgelist = [], params = ps, offset = None\<rparr>"

text \<open>
  What lies outside the module: \<open>fits_names fname\<close> is \<open>f[1].data.names\<close> of
  \<open>f = pyfits.open(fname)\<close>, or the exception of the call; \<open>py_float s\<close> is \<open>float(s)\<close>,
  or its exception; \<open>set_order s\<close> is the order in which the interpreter iterates over
  the set \<open>s\<close> of strings, which follows the hash table of the set and not the order in
  which the elements were added.
\<close>

record 'f world =
  fits_names :: "string option \<Rightarrow> error + string list"
  py_float :: "string \<Rightarrow> error + 'f"
  set_order :: "string pyset \<Rightarrow> string list"

text \<open>An iteration visits every element of the set, each one once.\<close>

definition iterates_once :: "'f world \<Rightarrow> bool" where
  "iterates_once w =
     (\<forall>s. distinct s \<longrightarrow> distinct (set_order w s) \<and> set (set_order w s) = set s)"

text \<open>The loop of \<open>append\<close> over the column names.\<close>

fun parvalues_loop :: "'f world \<Rightarrow> string \<Rightarrow> string list \<Rightarrow> 'f list \<Rightarrow> error + 'f list" where
  "parvalues_loop w pv [] parvalues = Inr parvalues"
| "parvalues_loop w pv (pname # cnames) parvalues =
     (if py_contains pv pname then
        (case py_float w (last (py_split CHR ''#'' pname)) of
           Inl e \<Rightarrow> Inl e
         | Inr x \<Rightarrow> parvalues_loop w pv cnames (parvalues @ [x]))
      else parvalues_loop w pv cnames parvalues)"

text \<open>\<open>Path.append(edge)\<close>\<close>

definition path_append :: "'f world \<Rightarrow> 'f path \<Rightarrow> edge \<Rightarrow> error + 'f path" where
  "path_append w self e =
     (let self1 = self\<lparr>edgelist := edgelist self @ [e]\<rparr> in
      case pvar e of
        None \<Rightarrow> Inr self1
      | Some pv \<Rightarrow>
          if dict_has (params self1) pv \<and> pv \<notin> set ['''', '' ''] then
            (case fits_names w (filename e) of
               Inl err \<Rightarrow> Inl err
             | Inr names \<Rightarrow>
                 (case parvalues_loop w pv (drop 1 names) [] of
                    Inl err \<Rightarrow> Inl err
                  | Inr parvalues \<Rightarrow>
                      Inr (self1\<lparr>params := dict_set (params self1) pv (PList parvalues)\<rparr>)))
          else Inr self1)"

definition compnames :: "'f path \<Rightarrow> string list" where
  "compnames self = map the (filter (\<lambda>x. x \<noteq> None) (map optical (edgelist self)))"

subsection \<open>Graph\<close>

record graph =
  nodes :: "(string, ref) dict"
  topnode :: "ref option"
  obsmodes :: "string list"
  obsrules_key :: string
  obsrules_junk :: "string list"
  obsrules_excl :: "string list"

text \<open>
  \<open>Graph(nodes)\<close>: \<open>top\<close> is set only when a list of nodes is given, and \<open>nodes[0]\<close> of
  an empty list raises IndexError. The three \<open>obsrules\<close> attributes do not exist before
  \<open>get_obsmodes\<close> sets them; nothing reads them earlier.
\<close>

definition add_node :: "heap \<Rightarrow> graph \<Rightarrow> ref \<Rightarrow> graph" where
  "add_node h self r = self\<lparr>nodes := dict_set (nodes self) (name (h r)) r\<rparr>"

definition Graph :: "heap \<Rightarrow> ref list option \<Rightarrow> error + graph" where
  "Graph h ns =
     (let self = \<lparr>nodes = [], topnode = None, obsmodes = [], obsrules_key = [],
                  obsrules_junk = [], obsrules_excl = []\<rparr> in
      case ns of
        None \<Rightarrow> Inr self
      | Some rs \<Rightarrow>
          (case rs of
             [] \<Rightarrow> Inl IndexError
           | r # _ \<Rightarrow> Inr ((foldl (add_node h) self rs)\<lparr>topnode := Some r\<rparr>)))"

subsection \<open>traverse\<close>

text \<open>
  The loop over the parameterized keywords, lines 191 to 196. \<open>k,v = p.split('#')\<close>
  raises ValueError unless the split gives two pieces.
\<close>

fun param_loop :: "string list \<Rightarrow> string pyset \<times> (string, 'f pval) dict
    \<Rightarrow> error + string pyset \<times> (string, 'f pval) dict" where
  "param_loop [] (kwdset, ps) = Inr (kwdset, ps)"
| "param_loop (p # plist) (kwdset, ps) =
     (case pyset_remove p kwdset of
        Inl e \<Rightarrow> Inl e
      | Inr kwdset1 \<Rightarrow>
          (case py_split CHR ''#'' p of
             [k, v] \<Rightarrow>
               param_loop plist
                 (pyset_add (k @ ''#'') kwdset1, dict_set ps (py_upper (k @ ''#'')) (PStr v))
           | parts \<Rightarrow>
               Inl (ValueError (if 2 < length parts then ''too many values to unpack''
                                else ''need more than 1 value to unpack''))))"

text \<open>
  Lines 186 to 196: the keyword set and the parameters of an obsmode string. The list
  comprehension of line 189 iterates over the set.
\<close>

definition obsmode_kwds :: "'f world \<Rightarrow> string
    \<Rightarrow> error + string pyset \<times> (string, 'f pval) dict" where
  "obsmode_kwds w obsmode =
     (let kwdset = pyset_of_list (py_split CHR '','' obsmode);
          plist = filter (\<lambda>k. CHR ''#'' \<in> set k) (set_order w kwdset)
      in param_loop plist (kwdset, []))"

record 'f walk_state =
  count :: nat
  kwdcount :: nat
  ans :: "'f path"
  edge_list :: "string list"
  innode :: "ref option"

text \<open>
  The body of the while loop for the node behind \<open>r\<close>; \<open>None\<close> is the \<open>break\<close> on a
  KeyError of \<open>select_edge\<close>.
\<close>

definition walk_body :: "'f world \<Rightarrow> heap \<Rightarrow> string pyset \<Rightarrow> bool \<Rightarrow> ref \<Rightarrow> 'f walk_state
    \<Rightarrow> error + 'f walk_state option" where
  "walk_body w h kwdset partial r st =
     (case select_edge (h r) kwdset partial (kwdcount st) of
        Inl e \<Rightarrow> (if e = KeyError then Inr None else Inl e)
      | Inr e \<Rightarrow>
          (case path_append w (ans st) e of
             Inl err \<Rightarrow> Inl err
           | Inr ans1 \<Rightarrow>
               (if kwd e \<in> set kwdset \<and> kwd e \<notin> set (edge_list st) \<and> kwd e \<noteq> ''default'' then
                  Inr (Some \<lparr>count = count st + 1, kwdcount = kwdcount st + 1,
                             ans = (case destination e of
                                      None \<Rightarrow> ans1
                                    | Some d \<Rightarrow> ans1\<lparr>offset := Some (name (h d))\<rparr>),
                             edge_list = edge_list st @ [kwd e], innode = destination e\<rparr>)
                else
                  Inr (Some \<lparr>count = count st + 1, kwdcount = kwdcount st,
                             ans = ans1,
                             edge_list = edge_list st @ [kwd e], innode = destination e\<rparr>))))"

text \<open>The while loop; \<open>n\<close> is \<open>len(self)\<close>.\<close>

function walk :: "'f world \<Rightarrow> heap \<Rightarrow> nat \<Rightarrow> string pyset \<Rightarrow> bool \<Rightarrow> 'f walk_state
    \<Rightarrow> error + 'f walk_state" where
  "walk w h n kwdset partial st =
     (case innode st of
        None \<Rightarrow> Inr st
      | Some r \<Rightarrow>
          if count st \<le> n then
            (case walk_body w h kwdset partial r st of
               Inl e \<Rightarrow> Inl e
             | Inr None \<Rightarrow> Inr st
             | Inr (Some st1) \<Rightarrow> walk w h n kwdset partial st1)
          else Inr st)"
  by pat_completeness auto
termination
  by (relation "measure (\<lambda>(w, h, n, kwdset, partial, st). Suc n - count st)")
     (auto simp: walk_body_def split: sum.splits option.splits if_splits)

declare walk.simps [simp del]

text \<open>\<open>Graph.traverse(obsmode, verbose, partial)\<close>\<close>

definition walk_init :: "'f path \<Rightarrow> ref \<Rightarrow> 'f walk_state" where
  "walk_init p r = \<lparr>count = 0, kwdcount = 0, ans = p, edge_list = [], innode = Some r\<rparr>"

definition traverse :: "'f world \<Rightarrow> heap \<Rightarrow> graph \<Rightarrow> string \<Rightarrow> bool \<Rightarrow> error + 'f path" where
  "traverse w h self obsmode partial =
     (case obsmode_kwds w obsmode of
        Inl e \<Rightarrow> Inl e
      | Inr (kwdset, ps) \<Rightarrow>
          (case topnode self of
             None \<Rightarrow> Inl AttributeError
           | Some t \<Rightarrow>
               (case dict_get (nodes self) (name (h t)) of
                  None \<Rightarrow> Inl KeyError
                | Some r \<Rightarrow>
                    (case walk w h (dict_len (nodes self)) kwdset partial
                            (walk_init (Path obsmode ps) r) of
                       Inl e \<Rightarrow> Inl e
                     | Inr st \<Rightarrow> Inr (ans st)))))"

subsection \<open>The rule table\<close>

record rule =
  junk :: "string list"
  exclude :: "string list"

definition rules_dict :: "(string, rule) dict" where
  "rules_dict =
     [(''default'', \<lparr>junk = ['''', ''None'', ''default''], exclude = [''aper#'']\<rparr>),
      (''acs,hrc'', \<lparr>junk = [], exclude = []\<rparr>),
      (''acs,hrc,f555w'', \<lparr>junk = [], exclude = []\<rparr>),
      (''acs,sbc'', \<lparr>junk = [], exclude = []\<rparr>),
      (''acs,wfc1'', \<lparr>junk = [''wfc1''], exclude = [''wfc2'']\<rparr>),
      (''acs,wfc2'', \<lparr>junk = [''wfc2''], exclude = [''wfc1'']\<rparr>),
      (''wfc3,uvis1'', \<lparr>junk = [''uvis1''], exclude = [''uvis2'']\<rparr>),
      (''wfc3,uvis2'', \<lparr>junk = [''uvis2''], exclude = [''uvis1'']\<rparr>),
      (''wfc3,ir'', \<lparr>junk = [], exclude = []\<rparr>),
      (''nicmos,1'', \<lparr>junk = [], exclude = []\<rparr>),
      (''nicmos,2'', \<lparr>junk = [], exclude = []\<rparr>),
      (''nicmos,3'', \<lparr>junk = [], exclude = []\<rparr>),
      (''cos,boa'', \<lparr>junk = [], exclude = []\<rparr>),
      (''cos,psa'', \<lparr>junk = [], exclude = []\<rparr>),
      (''wfpc2,*'', \<lparr>junk = [], exclude = []\<rparr>),
      (''stis,*'', \<lparr>junk = [], exclude = []\<rparr>)]"

subsection \<open>recurse and process\<close>

text \<open>
  \<open>Graph.recurse(node, so_far)\<close> calls itself once for every edge, and on a table with a
  cycle it does so until the interpreter's recursion limit raises RuntimeError. The
  first argument is the number of calls of \<open>recurse\<close> that may still be nested.
  \<open>recurse_edges\<close> is the for loop over the edges of the node.
\<close>

fun recurse :: "nat \<Rightarrow> heap \<Rightarrow> ref option \<Rightarrow> string \<Rightarrow> graph \<Rightarrow> error + graph"
  and recurse_edges :: "nat \<Rightarrow> heap \<Rightarrow> edge list \<Rightarrow> string \<Rightarrow> graph \<Rightarrow> error + graph" where
  "recurse 0 h nd so_far self = Inl (RuntimeError ''maximum recursion depth exceeded'')"
| "recurse (Suc d) h None so_far self = Inr self"
| "recurse (Suc d) h (Some r) so_far self =
     recurse_edges d h (dict_values (edges (h r))) so_far self"
| "recurse_edges d h [] so_far self = Inr self"
| "recurse_edges d h (e # es) so_far self =
     (if kwd e \<in> set (obsrules_excl self) then recurse_edges d h es so_far self
      else
        (case recurse d h (destination e) (so_far @ '','' @ kwd e)
                (if kwd e \<notin> set (obsrules_junk self)
                 then self\<lparr>obsmodes := obsmodes self @ [so_far @ '','' @ kwd e]\<rparr>
                 else self) of
           Inl err \<Rightarrow> Inl err
         | Inr self1 \<Rightarrow> recurse_edges d h es so_far self1))"

text \<open>
  \<open>Graph.process(prefix)\<close>. The list goes through a numpy array of strings;
  \<open>numpy.char.replace\<close> and \<open>numpy.char.add\<close> are \<open>str.replace\<close> and \<open>+\<close> on every
  element. \<open>strip_junk\<close> is the loop over the junk keywords.
\<close>

fun strip_junk :: "string list \<Rightarrow> string list \<Rightarrow> string list" where
  "strip_junk [] obs = obs"
| "strip_junk (jk # junks) obs =
     strip_junk junks
       (if jk = [] then map (py_replace '',,'' '','') obs
        else map (py_replace (jk @ '','') []) obs)"

definition process :: "string option \<Rightarrow> graph \<Rightarrow> graph" where
  "process pfx self =
     (let obs = strip_junk (obsrules_junk self) (obsmodes self) in
      case pfx of
        Some p \<Rightarrow> self\<lparr>obsmodes := p # map (\<lambda>s. p @ s) obs\<rparr>
      | None \<Rightarrow> self\<lparr>obsmodes := obs\<rparr>)"

subsection \<open>get_obsmodes\<close>

text \<open>
  \<open>Graph.get_obsmodes(obsmode, prefix)\<close> for an \<open>obsmode\<close> of type \<open>str\<close>. \<open>rules\<close> is the
  module's global \<open>rules_dict\<close> at the time of the call and \<open>limit\<close> the depth left for
  \<open>recurse\<close>. The result is the returned list and the Graph after the call.
\<close>

definition get_obsmodes :: "(string, rule) dict \<Rightarrow> 'f world \<Rightarrow> heap \<Rightarrow> nat \<Rightarrow> graph \<Rightarrow> string
    \<Rightarrow> bool \<Rightarrow> error + string list \<times> graph" where
  "get_obsmodes rules w h limit self obsmode pfx =
     (let self1 = self\<lparr>obsmodes := []\<rparr> in
      case (if dict_has rules obsmode then Inr obsmode
            else if dict_has rules (obsmode @ '',*'') then Inr (obsmode @ '',*'')
            else (case py_unicode obsmode of
                    Inl e \<Rightarrow> Inl e
                  | Inr u \<Rightarrow> Inl (ObsmodeError (''Unsupported obsmode string: '' @ u)))) of
        Inl e \<Rightarrow> Inl e
      | Inr key \<Rightarrow>
          (case dict_get rules ''default'' of
             None \<Rightarrow> Inl KeyError
           | Some dflt \<Rightarrow>
               (case dict_get rules key of
                  None \<Rightarrow> Inl KeyError
                | Some r \<Rightarrow>
                    (let self2 = self1\<lparr>obsrules_key := key,
                                       obsrules_junk := junk dflt @ junk r,
                                       obsrules_excl := exclude dflt @ exclude r\<rparr> in
                     if list_ex (\<lambda>tok. tok \<in> set (obsrules_excl self2)) (py_split CHR '','' obsmode)
                     then
                       (case py_unicode obsmode of
                          Inl e \<Rightarrow> Inl e
                        | Inr u \<Rightarrow>
                            Inl (ObsmodeError
                                  (''Entered obsmode includes excluded parameters: '' @ u)))
                     else
                       (case traverse w h self2 obsmode True of
                          Inl e \<Rightarrow> Inl e
                        | Inr p \<Rightarrow>
                            (case offset p of
                               None \<Rightarrow> Inl KeyError
                             | Some off \<Rightarrow>
                                 (case dict_get (nodes self2) off of
                                    None \<Rightarrow> Inl KeyError
                                  | Some startnode \<Rightarrow>
                                      (case recurse limit h (Some startnode) [] self2 of
                                         Inl e \<Rightarrow> Inl e
                                       | Inr self3 \<Rightarrow>
                                           (let self4 = process (if pfx then Some obsmode else None) self3
                                            in Inr (obsmodes self4, self4))))))))))"

section \<open>Example tables\<close>

text \<open>
  The table of the specification's scenario: \<open>top\<close> has the edges \<open>acs\<close> to \<open>A\<close> and
  \<open>default\<close> to nothing, \<open>A\<close> has \<open>wfc1\<close> to \<open>B\<close> and \<open>default\<close> to nothing, \<open>B\<close> has
  \<open>f555w\<close> to nothing. No edge names a parameter, so no file is read.
\<close>

definition mk_node :: "string \<Rightarrow> edge list \<Rightarrow> node" where
  "mk_node nm es = foldl add_edge (Node nm) es"

definition plain :: "string \<Rightarrow> ref option \<Rightarrow> edge" where
  "plain k d = Edge k (None, None, None, None) d"

definition no_files :: "unit world" where
  "no_files = \<lparr>fits_names = (\<lambda>_. Inl IOError), py_float = (\<lambda>_. Inl (ValueError ''float'')),
                set_order = (\<lambda>s. s)\<rparr>"

definition acs_heap :: heap where
  "acs_heap r =
     (if r = 0 then mk_node ''top'' [plain ''acs'' (Some 1), plain ''default'' None]
      else if r = 1 then mk_node ''A'' [plain ''wfc1'' (Some 2), plain ''default'' None]
      else if r = 2 then mk_node ''B'' [plain ''f555w'' None]
      else Node '''')"

definition acs_graph :: graph where
  "acs_graph = \<lparr>nodes = [(''top'', 0), (''A'', 1), (''B'', 2)], topnode = Some 0,
                obsmodes = [], obsrules_key = [], obsrules_junk = [], obsrules_excl = []\<rparr>"

lemmas table_defs = mk_node_def plain_def Node_def add_edge_def Edge_def dict_set_def
  pyset_add_def acs_heap_def acs_graph_def no_files_def

lemma acs_graph_built: "Graph acs_heap (Some [0, 1, 2]) = Inr acs_graph"
  by (simp add: Graph_def add_node_def table_defs)

section \<open>Nodes\<close>

lemma pyset_len_card: "pyset_len s = card (set s)"
  by (simp add: pyset_len_def card_set)

lemma set_pyset_inter: "set (pyset_inter a b) = set a \<inter> set b"
  by (auto simp: pyset_inter_def)

lemma hd_of_singleton: "set xs = {k} \<Longrightarrow> hd xs = k"
  by (cases xs) auto

lemma node_inv_Node: "node_inv (Node nm)"
  by (simp add: node_inv_def Node_def)

lemma node_inv_add_edge: "node_inv n \<Longrightarrow> node_inv (add_edge n e)"
  by (simp add: node_inv_def add_edge_def dict_set_def pyset_add_def AList.dom_update)

text \<open>
  Claim C2. \<open>select_edge\<close> raises the ambiguity error exactly when more than one keyword
  of the node's edge set is in the keyword set. When exactly one keyword \<open>k\<close> is in both,
  and the edge set of the node holds the keys of its edges, the result is the edge stored
  under \<open>k\<close>.
\<close>

theorem select_edge_ambiguity:
  "(select_edge n K p c = Inl ambiguous \<longleftrightarrow> 1 < card (set (edgeset n) \<inter> set K)) \<and>
   (node_inv n \<longrightarrow> set (edgeset n) \<inter> set K = {k} \<longrightarrow>
      (\<exists>e. dict_get (edges n) k = Some e \<and> select_edge n K p c = Inr e))"
proof (intro conjI impI)
  show "select_edge n K p c = Inl ambiguous \<longleftrightarrow> 1 < card (set (edgeset n) \<inter> set K)"
    by (auto simp: select_edge_def Let_def pyset_len_card set_pyset_inter ambiguous_def
        split: option.splits)
next
  assume inv: "node_inv n" and one: "set (edgeset n) \<inter> set K = {k}"
  from one have m: "set (pyset_inter (edgeset n) K) = {k}"
    by (simp add: set_pyset_inter)
  then have h: "hd (pyset_inter (edgeset n) K) = k"
    by (rule hd_of_singleton)
  from one have "k \<in> set (edgeset n)" by blast
  with inv have "k \<in> fst ` set (edges n)" by (simp add: node_inv_def)
  then obtain e where e: "map_of (edges n) k = Some e"
    by (metis weak_map_of_SomeI map_of_eq_None_iff not_Some_eq)
  have "pyset_len (pyset_inter (edgeset n) K) = 1"
    by (simp add: pyset_len_card m)
  with h e show "\<exists>e. dict_get (edges n) k = Some e \<and> select_edge n K p c = Inr e"
    by (simp add: select_edge_def Let_def dict_get_def)
qed

theorem select_edge_ambiguity_witness:
  "1 < card (set (edgeset (mk_node ''n'' [plain ''a'' None, plain ''b'' None])) \<inter> set [''a'', ''b'']) \<and>
   select_edge (mk_node ''n'' [plain ''a'' None, plain ''b'' None]) [''a'', ''b''] False 0 = Inl ambiguous \<and>
   node_inv (acs_heap 0) \<and> set (edgeset (acs_heap 0)) \<inter> set [''acs'', ''wfc1''] = {''acs''} \<and>
   select_edge (acs_heap 0) [''acs'', ''wfc1''] False 0 = Inr (plain ''acs'' (Some 1))"
  using select_edge_ambiguity [of "mk_node ''n'' [plain ''a'' None, plain ''b'' None]" "[''a'', ''b'']" False 0 "''a''"]
    select_edge_ambiguity [of "acs_heap 0" "[''acs'', ''wfc1'']" False 0 "''acs''"]
  by (auto simp: table_defs node_inv_def dict_get_def)

text \<open>
  Claim C3. When no keyword of the node's edge set is in the keyword set, \<open>select_edge\<close>
  raises nothing. With a \<open>default\<close> edge it returns that edge when partial mode is off, or
  when it is on and the count is below the size of the keyword set, and the sentinel
  otherwise; without a \<open>default\<close> edge it returns the sentinel. The sentinel has the
  keyword \<open>default\<close> and no destination.
\<close>

theorem select_edge_no_match:
  "set (edgeset n) \<inter> set K = {} \<Longrightarrow>
   select_edge n K partial c =
     Inr (case dict_get (edges n) ''default'' of
            Some d \<Rightarrow> if \<not> partial \<or> (partial \<and> c < card (set K)) then d else sentinel
          | None \<Rightarrow> sentinel) \<and>
   kwd sentinel = ''default'' \<and> destination sentinel = None"
  by (auto simp: select_edge_def Let_def pyset_len_card set_pyset_inter dict_has_def
      dict_get_def sentinel_def Edge_def split: option.splits)

theorem select_edge_no_match_witness:
  "set (edgeset (acs_heap 0)) \<inter> set [''hrc''] = {} \<and>
   select_edge (acs_heap 0) [''hrc''] False 1 = Inr (plain ''default'' None) \<and>
   select_edge (acs_heap 0) [''hrc''] True 0 = Inr (plain ''default'' None) \<and>
   select_edge (acs_heap 0) [''hrc''] True 1 = Inr sentinel \<and>
   select_edge (acs_heap 2) [''hrc''] False 0 = Inr sentinel"
  using select_edge_no_match [of "acs_heap 0" "[''hrc'']" False 1]
    select_edge_no_match [of "acs_heap 0" "[''hrc'']" True 0]
    select_edge_no_match [of "acs_heap 0" "[''hrc'']" True 1]
    select_edge_no_match [of "acs_heap 2" "[''hrc'']" False 0]
  by (simp add: table_defs dict_get_def)

section \<open>The walk of traverse\<close>

lemma path_append_edgelist:
  "path_append w a e = Inr a1 \<Longrightarrow> edgelist a1 = edgelist a @ [e] \<and> offset a1 = offset a"
  by (auto simp: path_append_def Let_def split: option.splits if_splits sum.splits)

lemma walk_body_step:
  assumes "walk_body w h K partial r st = Inr (Some st1)"
  shows "\<exists>e. select_edge (h r) K partial (kwdcount st) = Inr e \<and>
             count st1 = Suc (count st) \<and>
             edgelist (ans st1) = edgelist (ans st) @ [e] \<and>
             edge_list st1 = edge_list st @ [kwd e] \<and>
             innode st1 = destination e \<and>
             offset (ans st1) =
               (if kwd e \<in> set K \<and> kwd e \<notin> set (edge_list st) \<and> kwd e \<noteq> ''default''
                then (case destination e of None \<Rightarrow> offset (ans st) | Some d \<Rightarrow> Some (name (h d)))
                else offset (ans st))"
proof -
  from assms obtain e where e: "select_edge (h r) K partial (kwdcount st) = Inr e"
    by (cases "select_edge (h r) K partial (kwdcount st)")
       (simp_all add: walk_body_def split: if_splits)
  with assms obtain a1 where a1: "path_append w (ans st) e = Inr a1"
    by (cases "path_append w (ans st) e") (simp_all add: walk_body_def)
  from path_append_edgelist [OF a1]
  have el: "edgelist a1 = edgelist (ans st) @ [e]" and off: "offset a1 = offset (ans st)"
    by simp_all
  show ?thesis
  proof (cases "kwd e \<in> set K \<and> kwd e \<notin> set (edge_list st) \<and> kwd e \<noteq> ''default''")
    case True
    with assms e a1 have "st1 = \<lparr>count = count st + 1, kwdcount = kwdcount st + 1,
        ans = (case destination e of None \<Rightarrow> a1 | Some d \<Rightarrow> a1\<lparr>offset := Some (name (h d))\<rparr>),
        edge_list = edge_list st @ [kwd e], innode = destination e\<rparr>"
      by (simp add: walk_body_def)
    with True e el off show ?thesis by (simp split: option.splits)
  next
    case False
    with assms e a1 have "st1 = \<lparr>count = count st + 1, kwdcount = kwdcount st,
        ans = a1, edge_list = edge_list st @ [kwd e], innode = destination e\<rparr>"
      by (simp add: walk_body_def)
    with False e el off show ?thesis by auto
  qed
qed

lemma walk_unfold:
  "walk w h n K partial st =
     (case innode st of
        None \<Rightarrow> Inr st
      | Some r \<Rightarrow>
          if count st \<le> n then
            (case walk_body w h K partial r st of
               Inl e \<Rightarrow> Inl e
             | Inr None \<Rightarrow> Inr st
             | Inr (Some st1) \<Rightarrow> walk w h n K partial st1)
          else Inr st)"
  by (rule walk.simps)

lemma walk_stop: "innode st = None \<or> n < count st \<Longrightarrow> walk w h n K partial st = Inr st"
  by (subst walk_unfold) (auto split: option.splits)

lemma walk_break:
  "innode st = Some r \<Longrightarrow> count st \<le> n \<Longrightarrow> walk_body w h K partial r st = Inr None \<Longrightarrow>
   walk w h n K partial st = Inr st"
  by (subst walk_unfold) simp

lemma walk_raise:
  "innode st = Some r \<Longrightarrow> count st \<le> n \<Longrightarrow> walk_body w h K partial r st = Inl e \<Longrightarrow>
   walk w h n K partial st = Inl e"
  by (subst walk_unfold) simp

lemma walk_step:
  "innode st = Some r \<Longrightarrow> count st \<le> n \<Longrightarrow> walk_body w h K partial r st = Inr (Some st1) \<Longrightarrow>
   walk w h n K partial st = walk w h n K partial st1"
  by (subst walk_unfold) simp

lemma walk_induct_Inr [consumes 1, case_names stop step]:
  assumes "walk w h n K partial st = Inr st'"
    and stop: "\<And>st. P st st"
    and step: "\<And>st r st1. innode st = Some r \<Longrightarrow> count st \<le> n \<Longrightarrow>
           walk_body w h K partial r st = Inr (Some st1) \<Longrightarrow>
           walk w h n K partial st1 = Inr st' \<Longrightarrow> P st1 st' \<Longrightarrow> P st st'"
  shows "P st st'"
  using assms(1)
proof (induction "Suc n - count st" arbitrary: st rule: less_induct)
  case less
  show ?case
  proof (cases "innode st = None \<or> n < count st")
    case True
    from walk_stop [OF True, of w h K partial] less.prems have "st' = st" by simp
    then show ?thesis by (simp add: stop)
  next
    case False
    then obtain r where r: "innode st = Some r" and c: "count st \<le> n" by auto
    show ?thesis
    proof (cases "walk_body w h K partial r st")
      case (Inl e)
      from walk_raise [OF r c Inl] less.prems show ?thesis by simp
    next
      case (Inr ost)
      show ?thesis
      proof (cases ost)
        case None
        with Inr have "walk_body w h K partial r st = Inr None" by simp
        from walk_break [OF r c this] less.prems have "st' = st" by simp
        then show ?thesis by (simp add: stop)
      next
        case (Some st1)
        with Inr have b: "walk_body w h K partial r st = Inr (Some st1)" by simp
        from walk_step [OF r c b] less.prems have w1: "walk w h n K partial st1 = Inr st'" by simp
        from walk_body_step [OF b] have "count st1 = Suc (count st)" by blast
        with c have "Suc n - count st1 < Suc n - count st" by simp
        from less.hyps [OF this w1] have "P st1 st'" .
        from step [OF r c b w1 this] show ?thesis .
      qed
    qed
  qed
qed

lemma walk_length:
  "walk w h n K partial st = Inr st' \<Longrightarrow>
   length (edgelist (ans st')) \<le> length (edgelist (ans st)) + (Suc n - count st)"
proof (induction rule: walk_induct_Inr)
  case (stop st)
  show ?case by simp
next
  case (step st r st1)
  from walk_body_step [OF step(3)]
  have "count st1 = Suc (count st)" "length (edgelist (ans st1)) = Suc (length (edgelist (ans st)))"
    by auto
  with step(2) step.IH show ?case by simp
qed

text \<open>
  The values that the loop assigns to \<open>ans.offset\<close> while it follows the edges \<open>es\<close>,
  in order: one for every edge whose keyword is in the keyword set, was not followed
  before (\<open>seen\<close> holds the keywords followed so far) and is not \<open>default\<close>, when the
  edge has a destination.
\<close>

fun offset_writes :: "heap \<Rightarrow> string pyset \<Rightarrow> string list \<Rightarrow> edge list \<Rightarrow> string list" where
  "offset_writes h K seen [] = []"
| "offset_writes h K seen (e # es) =
     (if kwd e \<in> set K \<and> kwd e \<notin> set seen \<and> kwd e \<noteq> ''default'' then
        (case destination e of None \<Rightarrow> [] | Some d \<Rightarrow> [name (h d)])
      else []) @ offset_writes h K (seen @ [kwd e]) es"

lemma walk_offset:
  "walk w h n K partial st = Inr st' \<Longrightarrow>
   \<exists>es. edgelist (ans st') = edgelist (ans st) @ es \<and>
        offset (ans st') =
          (if offset_writes h K (edge_list st) es = [] then offset (ans st)
           else Some (last (offset_writes h K (edge_list st) es)))"
proof (induction rule: walk_induct_Inr)
  case (stop st)
  show ?case by simp
next
  case (step st r st1)
  from walk_body_step [OF step(3)] obtain e where
    e: "edgelist (ans st1) = edgelist (ans st) @ [e]" "edge_list st1 = edge_list st @ [kwd e]"
      "offset (ans st1) =
         (if kwd e \<in> set K \<and> kwd e \<notin> set (edge_list st) \<and> kwd e \<noteq> ''default''
          then (case destination e of None \<Rightarrow> offset (ans st) | Some d \<Rightarrow> Some (name (h d)))
          else offset (ans st))"
    by blast
  from step.IH obtain es where
    es: "edgelist (ans st') = edgelist (ans st1) @ es"
      "offset (ans st') =
         (if offset_writes h K (edge_list st1) es = [] then offset (ans st1)
          else Some (last (offset_writes h K (edge_list st1) es)))"
    by blast
  have "edgelist (ans st') = edgelist (ans st) @ (e # es)" using e es by simp
  moreover have "offset (ans st') =
      (if offset_writes h K (edge_list st) (e # es) = [] then offset (ans st)
       else Some (last (offset_writes h K (edge_list st) (e # es))))"
  proof (cases "kwd e \<in> set K \<and> kwd e \<notin> set (edge_list st) \<and> kwd e \<noteq> ''default''")
    case False
    then have "offset_writes h K (edge_list st) (e # es) = offset_writes h K (edge_list st1) es"
      by (auto simp: e(2))
    moreover from False have "offset (ans st1) = offset (ans st)"
      by (auto simp: e(3))
    ultimately show ?thesis by (simp add: es(2))
  next
    case True
    show ?thesis
    proof (cases "destination e")
      case None
      with True have "offset_writes h K (edge_list st) (e # es) = offset_writes h K (edge_list st1) es"
        by (simp add: e(2))
      moreover from True None have "offset (ans st1) = offset (ans st)"
        by (simp add: e(3))
      ultimately show ?thesis by (simp add: es(2))
    next
      case (Some d)
      with True have "offset_writes h K (edge_list st) (e # es) =
          name (h d) # offset_writes h K (edge_list st1) es"
        by (simp add: e(2))
      moreover from True Some have "offset (ans st1) = Some (name (h d))"
        by (simp add: e(3))
      ultimately show ?thesis by (simp add: es(2))
    qed
  qed
  ultimately show ?case by blast
qed

lemma offset_writes_bound:
  "length (offset_writes h K seen es) \<le> card (set K - set seen)"
proof (induction es arbitrary: seen)
  case Nil
  show ?case by simp
next
  case (Cons e es)
  have fin: "finite (set K - set seen)" by simp
  show ?case
  proof (cases "kwd e \<in> set K \<and> kwd e \<notin> set seen")
    case True
    then have eq: "set K - set (seen @ [kwd e]) = (set K - set seen) - {kwd e}"
      and mem: "kwd e \<in> set K - set seen" by auto
    from fin mem have "card ((set K - set seen) - {kwd e}) < card (set K - set seen)"
      by (rule card_Diff1_less)
    with eq have "card (set K - set (seen @ [kwd e])) < card (set K - set seen)" by simp
    moreover have "length (offset_writes h K seen (e # es)) \<le>
        Suc (length (offset_writes h K (seen @ [kwd e]) es))"
      by (simp split: option.splits)
    ultimately show ?thesis using Cons.IH [of "seen @ [kwd e]"] by linarith
  next
    case False
    have "card (set K - set (seen @ [kwd e])) \<le> card (set K - set seen)"
      by (rule card_mono) auto
    moreover from False have "offset_writes h K seen (e # es) = offset_writes h K (seen @ [kwd e]) es"
      by auto
    ultimately show ?thesis using Cons.IH [of "seen @ [kwd e]"] by simp
  qed
qed

lemma offset_writes_none:
  "list_all (\<lambda>e. kwd e \<notin> set K \<or> kwd e = ''default'') es \<Longrightarrow> offset_writes h K seen es = []"
  by (induction es arbitrary: seen) auto

lemma traverse_walk:
  "traverse w h g obsmode partial = Inr (p :: 'f path) \<Longrightarrow>
   \<exists>K ps r st'. obsmode_kwds w obsmode = Inr (K, ps) \<and>
      walk w h (dict_len (nodes g)) K partial (walk_init (Path obsmode ps) r) = Inr st' \<and> p = ans st'"
  by (simp add: traverse_def split: sum.splits option.splits prod.splits) blast

lemmas eval_defs = traverse_def obsmode_kwds_def no_files_def pyset_of_list_def pyset_remove_def
  walk_init_def walk_body_def select_edge_def pyset_inter_def pyset_len_def
  dict_has_def dict_get_def dict_len_def path_append_def Path_def sentinel_def Let_def

text \<open>A table with a cycle: the only node has a \<open>default\<close> edge to itself.\<close>

definition loop_heap :: heap where
  "loop_heap r = mk_node ''top'' [plain ''default'' (Some 0)]"

definition loop_graph :: graph where
  "loop_graph = \<lparr>nodes = [(''top'', 0)], topnode = Some 0,
                 obsmodes = [], obsrules_key = [], obsrules_junk = [], obsrules_excl = []\<rparr>"

lemma walk_past_bound: "n < count st \<Longrightarrow> walk w h n K partial st = Inr st"
  by (simp add: walk_stop)

text \<open>
  Claim C5. The loop of \<open>traverse\<close> is a total function: every iteration adds one to
  \<open>count\<close>, and the loop stops when \<open>count\<close> is above \<open>len(self)\<close>. A Path that
  \<open>traverse\<close> returns has at most \<open>len(self) + 1\<close> edges, and a loop whose count is
  above \<open>len(self)\<close> returns the state it has, without an error.
\<close>

theorem traverse_bounded:
  "(traverse w h g obsmode partial = Inr p \<longrightarrow> length (edgelist p) \<le> dict_len (nodes g) + 1) \<and>
   (dict_len (nodes g) < count st \<longrightarrow> walk w h (dict_len (nodes g)) K partial st = Inr st)"
proof (intro conjI impI)
  assume "traverse w h g obsmode partial = Inr p"
  from traverse_walk [OF this] obtain K ps r st' where
    w: "walk w h (dict_len (nodes g)) K partial (walk_init (Path obsmode ps) r) = Inr st'"
    and p: "p = ans st'"
    by blast
  from walk_length [OF w] p
  show "length (edgelist p) \<le> dict_len (nodes g) + 1"
    by (simp add: walk_init_def Path_def)
next
  assume "dict_len (nodes g) < count st"
  then show "walk w h (dict_len (nodes g)) K partial st = Inr st" by (rule walk_past_bound)
qed

theorem traverse_bounded_witness:
  "traverse no_files loop_heap loop_graph ''acs'' False =
     Inr \<lparr>path_name = ''acs'',
          edgelist = [plain ''default'' (Some 0), plain ''default'' (Some 0)],
          params = [], offset = None\<rparr> \<and>
   length [plain ''default'' (Some 0), plain ''default'' (Some 0)] \<le> dict_len (nodes loop_graph) + 1 \<and>
   dict_len (nodes loop_graph) <
     count \<lparr>count = 2, kwdcount = 0, ans = Path ''acs'' [], edge_list = [], innode = Some 0\<rparr> \<and>
   walk no_files loop_heap (dict_len (nodes loop_graph)) [''acs''] False
     \<lparr>count = 2, kwdcount = 0, ans = Path ''acs'' [], edge_list = [], innode = Some 0\<rparr> =
     Inr \<lparr>count = 2, kwdcount = 0, ans = Path ''acs'' [], edge_list = [], innode = Some 0\<rparr>"
proof -
  have t: "traverse no_files loop_heap loop_graph ''acs'' False =
     Inr \<lparr>path_name = ''acs'',
          edgelist = [plain ''default'' (Some 0), plain ''default'' (Some 0)],
          params = [], offset = None\<rparr>"
    by (simp add: eval_defs walk.simps table_defs loop_heap_def loop_graph_def)
  have c: "dict_len (nodes loop_graph) <
     count \<lparr>count = 2, kwdcount = 0, ans = Path ''acs'' ([] :: (string, unit pval) dict),
            edge_list = [], innode = Some 0\<rparr>"
    by (simp add: dict_len_def loop_graph_def)
  from traverse_bounded [of no_files loop_heap loop_graph "''acs''" False
      "\<lparr>path_name = ''acs'', edgelist = [plain ''default'' (Some 0), plain ''default'' (Some 0)],
        params = [], offset = None\<rparr>"
      "\<lparr>count = 2, kwdcount = 0, ans = Path ''acs'' [], edge_list = [], innode = Some 0\<rparr>"
      "[''acs'']"] t c
  show ?thesis by simp
qed

text \<open>
  Claim C4, as amended. \<open>offset\<close> is assigned once for every keyword of the input set
  that an edge with a destination matches for the first time: the returned offset is
  the last of these values, or None when there is none, and there are at most as many
  assignments as the keyword set has elements.
\<close>

theorem traverse_offset:
  assumes "traverse w h g obsmode partial = Inr (p :: 'f path)"
    and "obsmode_kwds w obsmode = Inr (K, ps)"
  shows "offset p = (if offset_writes h K [] (edgelist p) = [] then None
                     else Some (last (offset_writes h K [] (edgelist p)))) \<and>
         length (offset_writes h K [] (edgelist p)) \<le> card (set K)"
proof -
  from traverse_walk [OF assms(1)] assms(2) obtain r st' where
    w: "walk w h (dict_len (nodes g)) K partial (walk_init (Path obsmode ps) r) = Inr st'"
    and p: "p = ans st'" by auto
  from walk_offset [OF w] p
  have "offset p = (if offset_writes h K [] (edgelist p) = [] then None
                     else Some (last (offset_writes h K [] (edgelist p))))"
    by (auto simp: walk_init_def Path_def)
  moreover from offset_writes_bound [of h K "[]" "edgelist p"]
  have "length (offset_writes h K [] (edgelist p)) \<le> card (set K)" by simp
  ultimately show ?thesis by simp
qed

lemma acs_traverse:
  "traverse no_files acs_heap acs_graph ''acs,wfc1,f555w'' False =
   Inr \<lparr>path_name = ''acs,wfc1,f555w'',
        edgelist = [plain ''acs'' (Some 1), plain ''wfc1'' (Some 2), plain ''f555w'' None],
        params = [], offset = Some ''B''\<rparr>"
  by (simp add: eval_defs walk.simps table_defs)

lemma acs_kwds:
  "obsmode_kwds no_files ''acs,wfc1,f555w''
    = Inr ([''acs'', ''wfc1'', ''f555w''], [])"
  by (simp add: eval_defs)

lemma acs_writes:
  "offset_writes acs_heap [''acs'', ''wfc1'', ''f555w''] []
     [plain ''acs'' (Some 1), plain ''wfc1'' (Some 2), plain ''f555w'' None] = [''A'', ''B'']"
  by (simp add: table_defs)

theorem traverse_offset_witness:
  "traverse no_files acs_heap acs_graph ''acs,wfc1,f555w'' False =
     Inr \<lparr>path_name = ''acs,wfc1,f555w'',
          edgelist = [plain ''acs'' (Some 1), plain ''wfc1'' (Some 2), plain ''f555w'' None],
          params = [], offset = Some ''B''\<rparr> \<and>
   obsmode_kwds no_files ''acs,wfc1,f555w''
     = Inr ([''acs'', ''wfc1'', ''f555w''], []) \<and>
   offset_writes acs_heap [''acs'', ''wfc1'', ''f555w''] []
     [plain ''acs'' (Some 1), plain ''wfc1'' (Some 2), plain ''f555w'' None] = [''A'', ''B''] \<and>
   length [''A'', ''B''] \<le> card (set [''acs'', ''wfc1'', ''f555w''])"
  using traverse_offset [OF acs_traverse acs_kwds] acs_traverse acs_kwds acs_writes
  by simp

text \<open>
  Claim C4 as stated fails on the table of the scenario: the first iteration matches
  one keyword of three and sets the offset to \<open>A\<close>, the second sets it to \<open>B\<close>, and
  the third, which matches the last keyword, assigns nothing.
\<close>

theorem offset_assigned_twice:
  "map_sum id (map_option (\<lambda>s. (kwdcount s, offset (ans s))))
     (walk_body no_files acs_heap [''acs'', ''wfc1'', ''f555w''] False 0
        (walk_init (Path ''acs,wfc1,f555w'' []) 0)) = Inr (Some (1, Some ''A'')) \<and>
   map_sum id offset (traverse no_files acs_heap acs_graph ''acs,wfc1,f555w'' False) = Inr (Some ''B'') \<and>
   offset_writes acs_heap [''acs'', ''wfc1'', ''f555w''] []
     [plain ''acs'' (Some 1), plain ''wfc1'' (Some 2), plain ''f555w'' None] = [''A'', ''B'']"
proof -
  have "map_sum id (map_option (\<lambda>s. (kwdcount s, offset (ans s))))
     (walk_body no_files acs_heap [''acs'', ''wfc1'', ''f555w''] False 0
        (walk_init (Path ''acs,wfc1,f555w'' []) 0)) = Inr (Some (1, Some ''A''))"
    by (simp add: eval_defs table_defs)
  with acs_traverse acs_writes show ?thesis by simp
qed

section \<open>Parameterized keywords\<close>

lemma py_split_not_Nil: "py_split sep s \<noteq> []"
  by (induction s) (auto split: list.splits)

lemma py_split_first: "sep \<notin> set t \<Longrightarrow> py_split sep (t @ sep # rest) = t # py_split sep rest"
  by (induction t) (auto split: list.splits)

lemma py_split_none: "sep \<notin> set t \<Longrightarrow> py_split sep t = [t]"
  by (induction t) (auto split: list.splits)

lemma py_split_decomp:
  "py_split sep s = t # ts \<Longrightarrow>
   sep \<notin> set t \<and> (if ts = [] then s = t else \<exists>rest. s = t @ sep # rest \<and> py_split sep rest = ts)"
proof (induction s arbitrary: t ts)
  case Nil
  then show ?case by simp
next
  case (Cons c s)
  show ?case
  proof (cases "c = sep")
    case True
    with Cons.prems have "t = []" "ts = py_split sep s" by auto
    with True show ?thesis by (simp add: py_split_not_Nil)
  next
    case False
    obtain t' ts' where s': "py_split sep s = t' # ts'"
      by (cases "py_split sep s") (auto simp: py_split_not_Nil)
    with False Cons.prems have t: "t = c # t'" "ts = ts'" by auto
    from Cons.IH [OF s'] have ih: "sep \<notin> set t'"
      "if ts' = [] then s = t' else \<exists>rest. s = t' @ sep # rest \<and> py_split sep rest = ts'"
      by auto
    show ?thesis
    proof (cases "ts' = []")
      case True
      with ih t False show ?thesis by simp
    next
      case nonempty: False
      with ih obtain rest where "s = t' @ sep # rest" "py_split sep rest = ts'" by auto
      with ih(1) t False nonempty show ?thesis by auto
    qed
  qed
qed

lemma py_split_two:
  "py_split sep s = [k, v] \<Longrightarrow> sep \<notin> set k \<and> sep \<notin> set v \<and> s = k @ sep # v"
proof -
  assume a: "py_split sep s = [k, v]"
  from py_split_decomp [OF a] obtain rest where
    k: "sep \<notin> set k" and s: "s = k @ sep # rest" and r: "py_split sep rest = [v]" by auto
  from py_split_decomp [OF r] have "sep \<notin> set v" "rest = v" by auto
  with k s show ?thesis by simp
qed

text \<open>
  For a token \<open>p\<close> with \<open>k,v = p.split('#')\<close>: \<open>param_kwd p\<close> is \<open>k + '#'\<close>, the
  keyword that takes the place of the token, and \<open>param_key p\<close> its key in the
  parameters.
\<close>

definition param_kwd :: "string \<Rightarrow> string" where
  "param_kwd p = hd (py_split CHR ''#'' p) @ ''#''"

definition param_key :: "string \<Rightarrow> string" where
  "param_key p = py_upper (param_kwd p)"

lemma param_kwd_two: "py_split CHR ''#'' p = [k, v] \<Longrightarrow> param_kwd p = k @ ''#''"
  by (simp add: param_kwd_def)

lemma param_kwd_idem:
  assumes "py_split CHR ''#'' p = [k, v]"
  shows "param_kwd (param_kwd p) = param_kwd p"
proof -
  from py_split_two [OF assms] have "CHR ''#'' \<notin> set k" by simp
  then have "py_split CHR ''#'' (k @ CHR ''#'' # []) = k # py_split CHR ''#'' []"
    by (rule py_split_first)
  then show ?thesis using assms by (simp add: param_kwd_def)
qed

lemma length_two: "length xs = 2 \<Longrightarrow> \<exists>k v. xs = [k, v]"
  by (cases xs; cases "tl xs") auto

lemma param_loop_ok:
  assumes "distinct plist" and "set plist \<subseteq> set K0"
    and "\<forall>p\<in>set plist. length (py_split CHR ''#'' p) = 2"
  shows "\<exists>K ps. param_loop plist (K0, ps0) = Inr (K, ps) \<and>
           set K = (set K0 - set plist) \<union> param_kwd ` set plist \<and>
           (\<forall>x. x \<notin> param_key ` set plist \<longrightarrow> map_of ps x = map_of ps0 x) \<and>
           (inj_on param_key (set plist) \<longrightarrow>
              (\<forall>p\<in>set plist. \<forall>k v. py_split CHR ''#'' p = [k, v] \<longrightarrow>
                 map_of ps (py_upper (k @ ''#'')) = Some (PStr v)))"
  using assms
proof (induction plist arbitrary: K0 ps0)
  case Nil
  show ?case by simp
next
  case (Cons p plist)
  from Cons.prems(3) obtain k v where kv: "py_split CHR ''#'' p = [k, v]"
    using length_two by fastforce
  have kw: "param_kwd p = k @ ''#''" and key: "param_key p = py_upper (k @ ''#'')"
    using kv by (simp_all add: param_key_def param_kwd_def)
  from Cons.prems(2) have rem: "pyset_remove p K0 = Inr (removeAll p K0)"
    by (simp add: pyset_remove_def)
  let ?K1 = "pyset_add (k @ ''#'') (removeAll p K0)"
  let ?ps1 = "dict_set ps0 (py_upper (k @ ''#'')) (PStr v)"
  have step: "param_loop (p # plist) (K0, ps0) = param_loop plist (?K1, ?ps1)"
    by (simp add: rem kv)
  have d: "distinct plist" and notin: "p \<notin> set plist" using Cons.prems(1) by simp_all
  have sub: "set plist \<subseteq> set ?K1"
    using Cons.prems(2) notin by (auto simp: pyset_add_def)
  have two: "\<forall>q\<in>set plist. length (py_split CHR ''#'' q) = 2"
    using Cons.prems(3) by simp
  from Cons.IH [OF d sub two, of ?ps1] obtain K ps where
    r: "param_loop plist (?K1, ?ps1) = Inr (K, ps)"
    and K: "set K = (set ?K1 - set plist) \<union> param_kwd ` set plist"
    and other: "\<forall>x. x \<notin> param_key ` set plist \<longrightarrow> map_of ps x = map_of ?ps1 x"
    and mine: "inj_on param_key (set plist) \<longrightarrow>
              (\<forall>q\<in>set plist. \<forall>k v. py_split CHR ''#'' q = [k, v] \<longrightarrow>
                 map_of ps (py_upper (k @ ''#'')) = Some (PStr v))"
    by blast
  have ps1: "map_of ?ps1 = (map_of ps0)(py_upper (k @ ''#'') \<mapsto> PStr v)"
    by (simp add: dict_set_def update_conv')
  have setK: "set K = (set K0 - set (p # plist)) \<union> param_kwd ` set (p # plist)"
  proof (cases "k @ ''#'' \<in> set plist")
    case False
    with K kw show ?thesis by (auto simp: pyset_add_def)
  next
    case True
    have "param_kwd (k @ ''#'') = k @ ''#''"
      using param_kwd_idem [OF kv] kw by simp
    with True have "k @ ''#'' \<in> param_kwd ` set plist" by force
    with K kw show ?thesis by (auto simp: pyset_add_def)
  qed
  have oth: "\<forall>x. x \<notin> param_key ` set (p # plist) \<longrightarrow> map_of ps x = map_of ps0 x"
    using other ps1 key by auto
  have inj: "inj_on param_key (set (p # plist)) \<longrightarrow>
              (\<forall>q\<in>set (p # plist). \<forall>k v. py_split CHR ''#'' q = [k, v] \<longrightarrow>
                 map_of ps (py_upper (k @ ''#'')) = Some (PStr v))"
  proof (intro impI ballI allI)
    fix q k' v'
    assume i: "inj_on param_key (set (p # plist))" and q: "q \<in> set (p # plist)"
      and s: "py_split CHR ''#'' q = [k', v']"
    show "map_of ps (py_upper (k' @ ''#'')) = Some (PStr v')"
    proof (cases "q = p")
      case True
      with s kv have e: "k' = k" "v' = v" by simp_all
      have "param_key p \<notin> param_key ` set plist"
      proof
        assume "param_key p \<in> param_key ` set plist"
        then obtain q' where "q' \<in> set plist" "param_key p = param_key q'" by auto
        with i have "p = q'" by (auto dest: inj_onD)
        with \<open>q' \<in> set plist\<close> notin show False by simp
      qed
      with other key have "map_of ps (py_upper (k @ ''#'')) = map_of ?ps1 (py_upper (k @ ''#''))"
        by simp
      with ps1 e show ?thesis by simp
    next
      case False
      with q have "q \<in> set plist" by simp
      moreover from i have "inj_on param_key (set plist)" by (auto simp: inj_on_def)
      ultimately show ?thesis using mine s by blast
    qed
  qed
  from step r setK oth inj show ?case by simp
qed


lemma py_split_length: "sep \<in> set s \<Longrightarrow> 2 \<le> length (py_split sep s)"
proof (induction s)
  case Nil
  then show ?case by simp
next
  case (Cons c s)
  show ?case
  proof (cases "c = sep")
    case True
    have "py_split sep s \<noteq> []" by (rule py_split_not_Nil)
    then have "1 \<le> length (py_split sep s)" by (cases "py_split sep s") simp_all
    with True show ?thesis by simp
  next
    case False
    with Cons.prems have "sep \<in> set s" by simp
    from Cons.IH [OF this] False show ?thesis
      by (cases "py_split sep s") simp_all
  qed
qed

lemma length_many: "2 < length xs \<Longrightarrow> \<exists>a b c rest. xs = a # b # c # rest"
  by (cases xs; cases "tl xs"; cases "tl (tl xs)") auto

lemma param_loop_many:
  assumes "distinct plist" and "set plist \<subseteq> set K0"
    and "\<forall>p\<in>set plist. CHR ''#'' \<in> set p"
    and "\<exists>p\<in>set plist. length (py_split CHR ''#'' p) \<noteq> 2"
  shows "param_loop plist (K0, ps0) = Inl (ValueError ''too many values to unpack'')"
  using assms
proof (induction plist arbitrary: K0 ps0)
  case Nil
  then show ?case by simp
next
  case (Cons p plist)
  from Cons.prems(2) have rem: "pyset_remove p K0 = Inr (removeAll p K0)"
    by (simp add: pyset_remove_def)
  from Cons.prems(3) have "CHR ''#'' \<in> set p" by simp
  then have ge: "2 \<le> length (py_split CHR ''#'' p)" by (rule py_split_length)
  show ?case
  proof (cases "length (py_split CHR ''#'' p) = 2")
    case False
    with ge have "2 < length (py_split CHR ''#'' p)" by simp
    then obtain a b c rest where "py_split CHR ''#'' p = a # b # c # rest"
      using length_many by blast
    then show ?thesis by (simp add: rem)
  next
    case True
    then obtain k v where kv: "py_split CHR ''#'' p = [k, v]"
      using length_two by blast
    let ?K1 = "pyset_add (k @ ''#'') (removeAll p K0)"
    let ?ps1 = "dict_set ps0 (py_upper (k @ ''#'')) (PStr v)"
    have step: "param_loop (p # plist) (K0, ps0) = param_loop plist (?K1, ?ps1)"
      by (simp add: rem kv)
    have d: "distinct plist" and notin: "p \<notin> set plist" using Cons.prems(1) by simp_all
    have sub: "set plist \<subseteq> set ?K1"
      using Cons.prems(2) notin by (auto simp: pyset_add_def)
    have hash: "\<forall>q\<in>set plist. CHR ''#'' \<in> set q" using Cons.prems(3) by simp
    from Cons.prems(4) True have bad: "\<exists>q\<in>set plist. length (py_split CHR ''#'' q) \<noteq> 2"
      by auto
    from Cons.IH [OF d sub hash bad] step show ?thesis by simp
  qed
qed

lemma path_append_plist:
  assumes "path_append w a e = Inr a1" and "dict_has (params a) x" and "x \<noteq> []" and "x \<noteq> '' ''"
  shows "dict_has (params a1) x \<and>
         (pvar e = Some x \<longrightarrow>
            (\<exists>names vs. fits_names w (filename e) = Inr names \<and>
               parvalues_loop w x (drop 1 names) [] = Inr vs \<and>
               map_of (params a1) x = Some (PList vs))) \<and>
         (pvar e \<noteq> Some x \<longrightarrow> map_of (params a1) x = map_of (params a) x)"
proof (cases "pvar e")
  case None
  with assms(1) have "a1 = a\<lparr>edgelist := edgelist a @ [e]\<rparr>"
    by (simp add: path_append_def Let_def)
  with None assms(2) show ?thesis by simp
next
  case (Some pv)
  show ?thesis
  proof (cases "dict_has (params a) pv \<and> pv \<notin> set ['''', '' '']")
    case False
    with Some assms have a1: "a1 = a\<lparr>edgelist := edgelist a @ [e]\<rparr>"
      by (auto simp: path_append_def Let_def)
    from False Some assms(2,3,4) have "pv \<noteq> x" by auto
    with a1 Some assms(2) show ?thesis by simp
  next
    case True
    with Some assms(1) obtain names vs where
      nm: "fits_names w (filename e) = Inr names"
      and vs: "parvalues_loop w pv (drop 1 names) [] = Inr vs"
      and a1: "a1 = a\<lparr>edgelist := edgelist a @ [e],
                  params := dict_set (params a) pv (PList vs)\<rparr>"
      by (auto simp: path_append_def Let_def split: sum.splits)
    have m: "map_of (params a1) = (map_of (params a))(pv \<mapsto> PList vs)"
      by (simp add: a1 dict_set_def update_conv')
    with assms(2) Some nm vs show ?thesis by (auto simp: dict_has_def)
  qed
qed

lemma walk_body_plist:
  assumes "walk_body w h K partial r st = Inr (Some st1)"
    and "dict_has (params (ans st)) x" and "x \<noteq> []" and "x \<noteq> '' ''"
  shows "\<exists>e. edgelist (ans st1) = edgelist (ans st) @ [e] \<and>
             dict_has (params (ans st1)) x \<and>
             (pvar e = Some x \<longrightarrow>
                (\<exists>names vs. fits_names w (filename e) = Inr names \<and>
                   parvalues_loop w x (drop 1 names) [] = Inr vs \<and>
                   map_of (params (ans st1)) x = Some (PList vs))) \<and>
             (pvar e \<noteq> Some x \<longrightarrow> map_of (params (ans st1)) x = map_of (params (ans st)) x)"
proof -
  from assms(1) obtain e where e: "select_edge (h r) K partial (kwdcount st) = Inr e"
    by (cases "select_edge (h r) K partial (kwdcount st)")
       (simp_all add: walk_body_def split: if_splits)
  with assms(1) obtain a1 where a1: "path_append w (ans st) e = Inr a1"
    by (cases "path_append w (ans st) e") (simp_all add: walk_body_def)
  from path_append_edgelist [OF a1]
  have el: "edgelist a1 = edgelist (ans st) @ [e]" by simp
  note pl = path_append_plist [OF a1 assms(2,3,4)]
  have "ans st1 = a1 \<or> (\<exists>nm. ans st1 = a1\<lparr>offset := nm\<rparr>)"
    using assms(1) e a1 by (auto simp: walk_body_def split: if_splits option.splits)
  then have "edgelist (ans st1) = edgelist a1" "params (ans st1) = params a1" by auto
  with el pl show ?thesis by simp
qed

lemma walk_plist:
  assumes "x \<noteq> []" and "x \<noteq> '' ''"
  shows "walk w h n K partial st = Inr st' \<Longrightarrow> dict_has (params (ans st)) x \<longrightarrow>
   (\<exists>es. edgelist (ans st') = edgelist (ans st) @ es \<and>
        dict_has (params (ans st')) x \<and>
        (if list_ex (\<lambda>e. pvar e = Some x) es
         then \<exists>names vs.
                fits_names w (filename (last (filter (\<lambda>e. pvar e = Some x) es))) = Inr names \<and>
                parvalues_loop w x (drop 1 names) [] = Inr vs \<and>
                map_of (params (ans st')) x = Some (PList vs)
         else map_of (params (ans st')) x = map_of (params (ans st)) x))"
proof (induction rule: walk_induct_Inr)
  case (stop st)
  show ?case by simp
next
  case (step st r st1)
  let ?P = "\<lambda>e. pvar e = Some x"
  show ?case
  proof
    assume has: "dict_has (params (ans st)) x"
    from walk_body_plist [OF step(3) has assms] obtain e where
      e: "edgelist (ans st1) = edgelist (ans st) @ [e]"
        "dict_has (params (ans st1)) x"
        "pvar e = Some x \<longrightarrow>
                (\<exists>names vs. fits_names w (filename e) = Inr names \<and>
                   parvalues_loop w x (drop 1 names) [] = Inr vs \<and>
                   map_of (params (ans st1)) x = Some (PList vs))"
        "pvar e \<noteq> Some x \<longrightarrow> map_of (params (ans st1)) x = map_of (params (ans st)) x"
      by blast
    from step.IH e(2) obtain es where
      es: "edgelist (ans st') = edgelist (ans st1) @ es"
        "dict_has (params (ans st')) x"
        "if list_ex ?P es
         then \<exists>names vs.
                fits_names w (filename (last (filter ?P es))) = Inr names \<and>
                parvalues_loop w x (drop 1 names) [] = Inr vs \<and>
                map_of (params (ans st')) x = Some (PList vs)
         else map_of (params (ans st')) x = map_of (params (ans st1)) x"
      by blast
    have 1: "edgelist (ans st') = edgelist (ans st) @ (e # es)" using e(1) es(1) by simp
    have 2: "if list_ex ?P (e # es)
         then \<exists>names vs.
                fits_names w (filename (last (filter ?P (e # es)))) = Inr names \<and>
                parvalues_loop w x (drop 1 names) [] = Inr vs \<and>
                map_of (params (ans st')) x = Some (PList vs)
         else map_of (params (ans st')) x = map_of (params (ans st)) x"
    proof (cases "list_ex ?P es")
      case True
      then have ne: "filter ?P es \<noteq> []" by (simp add: list_ex_iff filter_empty_conv)
      then have "last (filter ?P (e # es)) = last (filter ?P es)" by simp
      with True es(3) show ?thesis by simp
    next
      case False
      then have emp: "filter ?P es = []" by (simp add: list_ex_iff filter_empty_conv)
      from False es(3) have same: "map_of (params (ans st')) x = map_of (params (ans st1)) x"
        by simp
      show ?thesis
      proof (cases "pvar e = Some x")
        case True
        with emp have "last (filter ?P (e # es)) = e" by simp
        with True e(3) same show ?thesis by simp
      next
        case no: False
        with False e(4) same show ?thesis by simp
      qed
    qed
    from 1 es(2) 2
    show "\<exists>es. edgelist (ans st') = edgelist (ans st) @ es \<and>
        dict_has (params (ans st')) x \<and>
        (if list_ex ?P es
         then \<exists>names vs.
                fits_names w (filename (last (filter ?P es))) = Inr names \<and>
                parvalues_loop w x (drop 1 names) [] = Inr vs \<and>
                map_of (params (ans st')) x = Some (PList vs)
         else map_of (params (ans st')) x = map_of (params (ans st)) x)"
      by blast
  qed
qed

lemma py_upper_hash: "py_upper (k @ ''#'') = py_upper k @ ''#''"
  by (simp add: py_upper_def upper_char_def Let_def)

lemma traverse_params:
  assumes t: "traverse w h g obsmode partial = Inr path"
    and ok: "obsmode_kwds w obsmode = Inr (K, ps)"
    and v: "dict_get ps (py_upper (k @ ''#'')) = Some (PStr v)"
  shows "(list_all (\<lambda>e. pvar e \<noteq> Some (py_upper (k @ ''#''))) (edgelist path) \<longrightarrow>
            dict_get (params path) (py_upper (k @ ''#'')) = Some (PStr v)) \<and>
         (list_ex (\<lambda>e. pvar e = Some (py_upper (k @ ''#''))) (edgelist path) \<longrightarrow>
            (\<exists>names vs.
               fits_names w (filename (last (filter
                   (\<lambda>e. pvar e = Some (py_upper (k @ ''#''))) (edgelist path)))) = Inr names \<and>
               parvalues_loop w (py_upper (k @ ''#'')) (drop 1 names) [] = Inr vs \<and>
               dict_get (params path) (py_upper (k @ ''#'')) = Some (PList vs)))"
proof -
  let ?x = "py_upper (k @ ''#'')"
  have ne: "?x \<noteq> []" "?x \<noteq> '' ''" by (simp_all add: py_upper_hash)
  from traverse_walk [OF t] ok obtain r st' where
    w: "walk w h (dict_len (nodes g)) K partial (walk_init (Path obsmode ps) r) = Inr st'"
    and pa: "path = ans st'" by auto
  have init: "params (ans (walk_init (Path obsmode ps) r)) = ps"
    "edgelist (ans (walk_init (Path obsmode ps) r)) = []"
    by (simp_all add: walk_init_def Path_def)
  from v have has: "dict_has ps ?x" by (simp add: dict_has_def dict_get_def)
  from walk_plist [OF ne w] has pa init
  have b: "if list_ex (\<lambda>e. pvar e = Some ?x) (edgelist path)
         then \<exists>names vs.
                fits_names w (filename (last (filter (\<lambda>e. pvar e = Some ?x) (edgelist path))))
                  = Inr names \<and>
                parvalues_loop w ?x (drop 1 names) [] = Inr vs \<and>
                map_of (params path) ?x = Some (PList vs)
         else map_of (params path) ?x = map_of ps ?x"
    by auto
  have la: "list_all (\<lambda>e. pvar e \<noteq> Some ?x) (edgelist path) \<longleftrightarrow>
      \<not> list_ex (\<lambda>e. pvar e = Some ?x) (edgelist path)"
    by (simp add: list_all_iff list_ex_iff)
  from b v show ?thesis unfolding la by (auto simp: dict_get_def)
qed

text \<open>
  A split has one piece more than the string has separators: a token holds one \<open>#\<close>
  exactly when its split has two pieces, and more than one exactly when it has more.
\<close>

lemma py_split_count: "length (py_split sep s) = Suc (length (filter (\<lambda>c. c = sep) s))"
proof (induction s)
  case Nil
  show ?case by simp
next
  case (Cons c s)
  then show ?case by (cases "py_split sep s") (simp_all add: py_split_not_Nil)
qed

lemma plist_iterated:
  assumes "iterates_once w"
  shows "distinct (filter (\<lambda>k. CHR ''#'' \<in> set k) (set_order w (pyset_of_list ts)))"
    and "set (filter (\<lambda>k. CHR ''#'' \<in> set k) (set_order w (pyset_of_list ts))) =
           {p \<in> set ts. CHR ''#'' \<in> set p}"
proof -
  have d: "distinct (pyset_of_list ts)" by (simp add: pyset_of_list_def)
  with assms have "distinct (set_order w (pyset_of_list ts))"
    and s: "set (set_order w (pyset_of_list ts)) = set (pyset_of_list ts)"
    unfolding iterates_once_def by blast+
  then show "distinct (filter (\<lambda>k. CHR ''#'' \<in> set k) (set_order w (pyset_of_list ts)))"
    by simp
  from s show "set (filter (\<lambda>k. CHR ''#'' \<in> set k) (set_order w (pyset_of_list ts))) =
           {p \<in> set ts. CHR ''#'' \<in> set p}"
    by (auto simp: pyset_of_list_def)
qed

lemma obsmode_kwds_many:
  fixes w :: "'f world"
  assumes it: "iterates_once w"
    and bad: "\<exists>p\<in>set (py_split CHR '','' obsmode).
                CHR ''#'' \<in> set p \<and> length (py_split CHR ''#'' p) \<noteq> 2"
  shows "obsmode_kwds w obsmode = Inl (ValueError ''too many values to unpack'')"
proof -
  let ?K0 = "pyset_of_list (py_split CHR '','' obsmode)"
  let ?plist = "filter (\<lambda>k. CHR ''#'' \<in> set k) (set_order w ?K0)"
  note d = plist_iterated(1) [OF it, of "py_split CHR '','' obsmode"]
  note sp = plist_iterated(2) [OF it, of "py_split CHR '','' obsmode"]
  have sub: "set ?plist \<subseteq> set ?K0" unfolding sp by (auto simp: pyset_of_list_def)
  have hash: "\<forall>p\<in>set ?plist. CHR ''#'' \<in> set p" unfolding sp by simp
  from bad have b: "\<exists>p\<in>set ?plist. length (py_split CHR ''#'' p) \<noteq> 2"
    unfolding sp by blast
  from param_loop_many [OF d sub hash b, of "[] :: (string, 'f pval) dict"] show ?thesis
    by (simp add: obsmode_kwds_def Let_def)
qed

lemma obsmode_kwds_good:
  fixes w :: "'f world"
  assumes it: "iterates_once w"
    and one: "\<forall>p\<in>set (py_split CHR '','' obsmode).
                  CHR ''#'' \<in> set p \<longrightarrow> length (py_split CHR ''#'' p) = 2"
    and inj: "inj_on param_key {p \<in> set (py_split CHR '','' obsmode). CHR ''#'' \<in> set p}"
  shows "\<exists>K ps.
           obsmode_kwds w obsmode = Inr (K, ps) \<and>
           set K = {t \<in> set (py_split CHR '','' obsmode). CHR ''#'' \<notin> set t} \<union>
                   param_kwd ` {t \<in> set (py_split CHR '','' obsmode). CHR ''#'' \<in> set t} \<and>
           (\<forall>p\<in>set (py_split CHR '','' obsmode). \<forall>k v. py_split CHR ''#'' p = [k, v] \<longrightarrow>
              k @ ''#'' \<in> set K \<and> (v \<noteq> [] \<longrightarrow> p \<notin> set K) \<and>
              dict_get ps (py_upper (k @ ''#'')) = Some (PStr v))"
proof -
  let ?T = "set (py_split CHR '','' obsmode)"
  let ?K0 = "pyset_of_list (py_split CHR '','' obsmode)"
  let ?plist = "filter (\<lambda>k. CHR ''#'' \<in> set k) (set_order w ?K0)"
  note d = plist_iterated(1) [OF it, of "py_split CHR '','' obsmode"]
  note sp = plist_iterated(2) [OF it, of "py_split CHR '','' obsmode"]
  have sub: "set ?plist \<subseteq> set ?K0" unfolding sp by (auto simp: pyset_of_list_def)
  have two: "\<forall>p\<in>set ?plist. length (py_split CHR ''#'' p) = 2"
    using one unfolding sp by simp
  from param_loop_ok [OF d sub two, of "[] :: (string, 'f pval) dict"] obtain K ps where
    r: "param_loop ?plist (?K0, [] :: (string, 'f pval) dict) = Inr (K, ps)"
    and K: "set K = (set ?K0 - set ?plist) \<union> param_kwd ` set ?plist"
    and mine: "inj_on param_key (set ?plist) \<longrightarrow>
              (\<forall>p\<in>set ?plist. \<forall>k v. py_split CHR ''#'' p = [k, v] \<longrightarrow>
                 map_of ps (py_upper (k @ ''#'')) = Some (PStr v))"
    by blast
  have ok: "obsmode_kwds w obsmode = Inr (K, ps)"
    using r by (simp add: obsmode_kwds_def Let_def)
  have setK: "set K = {t \<in> ?T. CHR ''#'' \<notin> set t} \<union> param_kwd ` {t \<in> ?T. CHR ''#'' \<in> set t}"
    unfolding K sp by (auto simp: pyset_of_list_def)
  have each: "k @ ''#'' \<in> set K \<and> (v \<noteq> [] \<longrightarrow> p \<notin> set K) \<and>
              dict_get ps (py_upper (k @ ''#'')) = Some (PStr v)"
    if p: "p \<in> ?T" and kv: "py_split CHR ''#'' p = [k, v]" for p k v
  proof -
    from py_split_two [OF kv] have nk: "CHR ''#'' \<notin> set k" and nv: "CHR ''#'' \<notin> set v"
      and pe: "p = k @ CHR ''#'' # v" by simp_all
    from pe have hash: "CHR ''#'' \<in> set p" by simp
    with p have pin: "p \<in> {t \<in> ?T. CHR ''#'' \<in> set t}" by simp
    from pin have "param_kwd p \<in> param_kwd ` {t \<in> ?T. CHR ''#'' \<in> set t}" by (rule imageI)
    then have "param_kwd p \<in> set K" unfolding setK by (rule UnI2)
    then have c1: "k @ ''#'' \<in> set K" by (simp add: param_kwd_two [OF kv])
    have c2: "v \<noteq> [] \<longrightarrow> p \<notin> set K"
    proof (intro impI notI)
      assume v: "v \<noteq> []" and "p \<in> set K"
      then have "p \<in> {t \<in> ?T. CHR ''#'' \<notin> set t} \<or>
          p \<in> param_kwd ` {t \<in> ?T. CHR ''#'' \<in> set t}" unfolding setK by simp
      with hash have "p \<in> param_kwd ` {t \<in> ?T. CHR ''#'' \<in> set t}" by simp
      then obtain q where q: "q \<in> ?T" "CHR ''#'' \<in> set q" "p = param_kwd q" by auto
      from one q(1) q(2) have "length (py_split CHR ''#'' q) = 2" by simp
      then obtain k' v' where "py_split CHR ''#'' q = [k', v']"
        using length_two by blast
      with q have "p = k' @ ''#''" by (simp add: param_kwd_def)
      then have "last p = CHR ''#''" by simp
      moreover from pe v have "last p = last v" by simp
      ultimately have "last v = CHR ''#''" by simp
      with v nv show False using last_in_set by metis
    qed
    from inj have i: "inj_on param_key (set ?plist)" unfolding sp .
    from pin have "p \<in> set ?plist" unfolding sp .
    with mine i kv have "map_of ps (py_upper (k @ ''#'')) = Some (PStr v)" by blast
    then have c3: "dict_get ps (py_upper (k @ ''#'')) = Some (PStr v)"
      by (simp add: dict_get_def)
    from c1 c2 c3 show ?thesis by (intro conjI)
  qed
  have all: "\<forall>p\<in>?T. \<forall>k v. py_split CHR ''#'' p = [k, v] \<longrightarrow>
              k @ ''#'' \<in> set K \<and> (v \<noteq> [] \<longrightarrow> p \<notin> set K) \<and>
              dict_get ps (py_upper (k @ ''#'')) = Some (PStr v)"
  proof (intro ballI allI impI)
    fix p k v
    assume "p \<in> ?T" and "py_split CHR ''#'' p = [k, v]"
    then show "k @ ''#'' \<in> set K \<and> (v \<noteq> [] \<longrightarrow> p \<notin> set K) \<and>
              dict_get ps (py_upper (k @ ''#'')) = Some (PStr v)"
      by (rule each)
  qed
  from ok setK all show ?thesis by (intro exI [of _ K] exI [of _ ps] conjI)
qed

text \<open>
  Claim C6, as amended. Let the iteration over a set visit every element once. If every
  token of the obsmode string that contains \<open>#\<close> contains it once, and no two such tokens
  have the same key, then the keyword set of \<open>traverse\<close> holds the tokens without \<open>#\<close>
  and, for every token \<open>k#v\<close>, the keyword \<open>k#\<close> in place of the token, and the parameters
  given to the Path map the uppercased \<open>k#\<close> to \<open>v\<close>. The returned Path maps that key to
  \<open>v\<close> when no edge of the path names the key as its \<open>pvar\<close>; when an edge does, it maps
  the key to the list of the values that \<open>append\<close> has read from the columns of the file
  of the last such edge. If a token contains \<open>#\<close> more than once, the unpacking of its
  split raises ValueError and \<open>traverse\<close> returns no Path, whatever the table.
\<close>

theorem obsmode_kwds_params:
  assumes it: "iterates_once w"
  shows "((\<forall>p\<in>set (py_split CHR '','' obsmode).
             CHR ''#'' \<in> set p \<longrightarrow> length (py_split CHR ''#'' p) = 2) \<longrightarrow>
          inj_on param_key {p \<in> set (py_split CHR '','' obsmode). CHR ''#'' \<in> set p} \<longrightarrow>
          (\<exists>K ps.
             obsmode_kwds w obsmode = Inr (K, ps) \<and>
             set K = {t \<in> set (py_split CHR '','' obsmode). CHR ''#'' \<notin> set t} \<union>
                     param_kwd ` {t \<in> set (py_split CHR '','' obsmode). CHR ''#'' \<in> set t} \<and>
             (\<forall>p\<in>set (py_split CHR '','' obsmode). \<forall>k v. py_split CHR ''#'' p = [k, v] \<longrightarrow>
                k @ ''#'' \<in> set K \<and> (v \<noteq> [] \<longrightarrow> p \<notin> set K) \<and>
                dict_get ps (py_upper (k @ ''#'')) = Some (PStr v) \<and>
                (\<forall>h g partial path.
                   traverse w h g obsmode partial = Inr path \<longrightarrow>
                   (list_all (\<lambda>e. pvar e \<noteq> Some (py_upper (k @ ''#''))) (edgelist path) \<longrightarrow>
                      dict_get (params path) (py_upper (k @ ''#'')) = Some (PStr v)) \<and>
                   (list_ex (\<lambda>e. pvar e = Some (py_upper (k @ ''#''))) (edgelist path) \<longrightarrow>
                      (\<exists>names vs.
                         fits_names w (filename (last (filter
                           (\<lambda>e. pvar e = Some (py_upper (k @ ''#''))) (edgelist path)))) = Inr names \<and>
                         parvalues_loop w (py_upper (k @ ''#'')) (drop 1 names) [] = Inr vs \<and>
                         dict_get (params path) (py_upper (k @ ''#'')) = Some (PList vs))))))) \<and>
         ((\<exists>p\<in>set (py_split CHR '','' obsmode).
             CHR ''#'' \<in> set p \<and> length (py_split CHR ''#'' p) \<noteq> 2) \<longrightarrow>
          obsmode_kwds w obsmode = Inl (ValueError ''too many values to unpack'') \<and>
          (\<forall>h g partial.
             traverse w h g obsmode partial = Inl (ValueError ''too many values to unpack'')))"
proof (intro conjI impI)
  assume one: "\<forall>p\<in>set (py_split CHR '','' obsmode).
             CHR ''#'' \<in> set p \<longrightarrow> length (py_split CHR ''#'' p) = 2"
    and inj: "inj_on param_key {p \<in> set (py_split CHR '','' obsmode). CHR ''#'' \<in> set p}"
  from obsmode_kwds_good [OF it one inj] obtain K ps where
    ok: "obsmode_kwds w obsmode = Inr (K, ps)"
    and setK: "set K = {t \<in> set (py_split CHR '','' obsmode). CHR ''#'' \<notin> set t} \<union>
                   param_kwd ` {t \<in> set (py_split CHR '','' obsmode). CHR ''#'' \<in> set t}"
    and each: "\<forall>p\<in>set (py_split CHR '','' obsmode). \<forall>k v. py_split CHR ''#'' p = [k, v] \<longrightarrow>
              k @ ''#'' \<in> set K \<and> (v \<noteq> [] \<longrightarrow> p \<notin> set K) \<and>
              dict_get ps (py_upper (k @ ''#'')) = Some (PStr v)"
    by blast
  have all: "\<forall>p\<in>set (py_split CHR '','' obsmode). \<forall>k v. py_split CHR ''#'' p = [k, v] \<longrightarrow>
                k @ ''#'' \<in> set K \<and> (v \<noteq> [] \<longrightarrow> p \<notin> set K) \<and>
                dict_get ps (py_upper (k @ ''#'')) = Some (PStr v) \<and>
                (\<forall>h g partial path.
                   traverse w h g obsmode partial = Inr path \<longrightarrow>
                   (list_all (\<lambda>e. pvar e \<noteq> Some (py_upper (k @ ''#''))) (edgelist path) \<longrightarrow>
                      dict_get (params path) (py_upper (k @ ''#'')) = Some (PStr v)) \<and>
                   (list_ex (\<lambda>e. pvar e = Some (py_upper (k @ ''#''))) (edgelist path) \<longrightarrow>
                      (\<exists>names vs.
                         fits_names w (filename (last (filter
                           (\<lambda>e. pvar e = Some (py_upper (k @ ''#''))) (edgelist path)))) = Inr names \<and>
                         parvalues_loop w (py_upper (k @ ''#'')) (drop 1 names) [] = Inr vs \<and>
                         dict_get (params path) (py_upper (k @ ''#'')) = Some (PList vs))))"
  proof (intro ballI allI impI)
    fix p k v
    assume p: "p \<in> set (py_split CHR '','' obsmode)" and kv: "py_split CHR ''#'' p = [k, v]"
    with each have c: "k @ ''#'' \<in> set K" "v \<noteq> [] \<longrightarrow> p \<notin> set K"
      "dict_get ps (py_upper (k @ ''#'')) = Some (PStr v)"
      by blast+
    have tr: "\<forall>h g partial path.
                   traverse w h g obsmode partial = Inr path \<longrightarrow>
                   (list_all (\<lambda>e. pvar e \<noteq> Some (py_upper (k @ ''#''))) (edgelist path) \<longrightarrow>
                      dict_get (params path) (py_upper (k @ ''#'')) = Some (PStr v)) \<and>
                   (list_ex (\<lambda>e. pvar e = Some (py_upper (k @ ''#''))) (edgelist path) \<longrightarrow>
                      (\<exists>names vs.
                         fits_names w (filename (last (filter
                           (\<lambda>e. pvar e = Some (py_upper (k @ ''#''))) (edgelist path)))) = Inr names \<and>
                         parvalues_loop w (py_upper (k @ ''#'')) (drop 1 names) [] = Inr vs \<and>
                         dict_get (params path) (py_upper (k @ ''#'')) = Some (PList vs)))"
    proof (intro allI impI)
      fix h g partial path
      assume t: "traverse w h g obsmode partial = Inr path"
      show "(list_all (\<lambda>e. pvar e \<noteq> Some (py_upper (k @ ''#''))) (edgelist path) \<longrightarrow>
                      dict_get (params path) (py_upper (k @ ''#'')) = Some (PStr v)) \<and>
                   (list_ex (\<lambda>e. pvar e = Some (py_upper (k @ ''#''))) (edgelist path) \<longrightarrow>
                      (\<exists>names vs.
                         fits_names w (filename (last (filter
                           (\<lambda>e. pvar e = Some (py_upper (k @ ''#''))) (edgelist path)))) = Inr names \<and>
                         parvalues_loop w (py_upper (k @ ''#'')) (drop 1 names) [] = Inr vs \<and>
                         dict_get (params path) (py_upper (k @ ''#'')) = Some (PList vs)))"
        by (rule traverse_params [OF t ok c(3)])
    qed
    from c tr
    show "k @ ''#'' \<in> set K \<and> (v \<noteq> [] \<longrightarrow> p \<notin> set K) \<and>
                dict_get ps (py_upper (k @ ''#'')) = Some (PStr v) \<and>
                (\<forall>h g partial path.
                   traverse w h g obsmode partial = Inr path \<longrightarrow>
                   (list_all (\<lambda>e. pvar e \<noteq> Some (py_upper (k @ ''#''))) (edgelist path) \<longrightarrow>
                      dict_get (params path) (py_upper (k @ ''#'')) = Some (PStr v)) \<and>
                   (list_ex (\<lambda>e. pvar e = Some (py_upper (k @ ''#''))) (edgelist path) \<longrightarrow>
                      (\<exists>names vs.
                         fits_names w (filename (last (filter
                           (\<lambda>e. pvar e = Some (py_upper (k @ ''#''))) (edgelist path)))) = Inr names \<and>
                         parvalues_loop w (py_upper (k @ ''#'')) (drop 1 names) [] = Inr vs \<and>
                         dict_get (params path) (py_upper (k @ ''#'')) = Some (PList vs))))"
      by (intro conjI)
  qed
  from ok setK all
  show "\<exists>K ps.
             obsmode_kwds w obsmode = Inr (K, ps) \<and>
             set K = {t \<in> set (py_split CHR '','' obsmode). CHR ''#'' \<notin> set t} \<union>
                     param_kwd ` {t \<in> set (py_split CHR '','' obsmode). CHR ''#'' \<in> set t} \<and>
             (\<forall>p\<in>set (py_split CHR '','' obsmode). \<forall>k v. py_split CHR ''#'' p = [k, v] \<longrightarrow>
                k @ ''#'' \<in> set K \<and> (v \<noteq> [] \<longrightarrow> p \<notin> set K) \<and>
                dict_get ps (py_upper (k @ ''#'')) = Some (PStr v) \<and>
                (\<forall>h g partial path.
                   traverse w h g obsmode partial = Inr path \<longrightarrow>
                   (list_all (\<lambda>e. pvar e \<noteq> Some (py_upper (k @ ''#''))) (edgelist path) \<longrightarrow>
                      dict_get (params path) (py_upper (k @ ''#'')) = Some (PStr v)) \<and>
                   (list_ex (\<lambda>e. pvar e = Some (py_upper (k @ ''#''))) (edgelist path) \<longrightarrow>
                      (\<exists>names vs.
                         fits_names w (filename (last (filter
                           (\<lambda>e. pvar e = Some (py_upper (k @ ''#''))) (edgelist path)))) = Inr names \<and>
                         parvalues_loop w (py_upper (k @ ''#'')) (drop 1 names) [] = Inr vs \<and>
                         dict_get (params path) (py_upper (k @ ''#'')) = Some (PList vs)))))"
    by (intro exI [of _ K] exI [of _ ps] conjI)
next
  assume bad: "\<exists>p\<in>set (py_split CHR '','' obsmode).
             CHR ''#'' \<in> set p \<and> length (py_split CHR ''#'' p) \<noteq> 2"
  from obsmode_kwds_many [OF it bad]
  show "obsmode_kwds w obsmode = Inl (ValueError ''too many values to unpack'')" .
next
  assume bad: "\<exists>p\<in>set (py_split CHR '','' obsmode).
             CHR ''#'' \<in> set p \<and> length (py_split CHR ''#'' p) \<noteq> 2"
  from obsmode_kwds_many [OF it bad]
  show "\<forall>h g partial.
             traverse w h g obsmode partial = Inl (ValueError ''too many values to unpack'')"
    by (simp add: traverse_def)
qed

text \<open>
  A table with a parameterized component: \<open>top\<close> has the edge \<open>acs\<close> to \<open>A\<close>, and \<open>A\<close> has
  the edge \<open>mjd#\<close> to nothing, whose \<open>pvar\<close> is \<open>MJD#\<close> and whose file has the columns
  \<open>WAVELENGTH\<close>, \<open>MJD#5\<close> and \<open>MJD#10\<close>. The floats of this world are integers.
\<close>

definition mjd_files :: "int world" where
  "mjd_files =
     \<lparr>fits_names = (\<lambda>f. if f = Some ''acs_mjd.fits''
                         then Inr [''WAVELENGTH'', ''MJD#5'', ''MJD#10''] else Inl IOError),
      py_float = (\<lambda>s. if s = ''5'' then Inr 5 else if s = ''10'' then Inr 10
                       else Inl (ValueError ''float'')),
      set_order = (\<lambda>s. s)\<rparr>"

definition mjd_edge :: edge where
  "mjd_edge = Edge ''mjd#'' (Some ''acs_mjd'', None, Some ''acs_mjd.fits'', Some ''MJD#'') None"

definition mjd_heap :: heap where
  "mjd_heap r =
     (if r = 0 then mk_node ''top'' [plain ''acs'' (Some 1), plain ''default'' None]
      else if r = 1 then mk_node ''A'' [mjd_edge]
      else Node '''')"

definition mjd_graph :: graph where
  "mjd_graph = \<lparr>nodes = [(''top'', 0), (''A'', 1)], topnode = Some 0,
                obsmodes = [], obsrules_key = [], obsrules_junk = [], obsrules_excl = []\<rparr>"

lemmas mjd_defs = mjd_files_def mjd_edge_def mjd_heap_def mjd_graph_def

lemma mjd_upper: "py_upper ''mjd#'' = ''MJD#''"
  by (simp add: py_upper_def upper_char_def Let_def char_of_def bit_0)

lemma mjd_traverse:
  "traverse mjd_files mjd_heap mjd_graph ''acs,mjd#5'' False =
   Inr \<lparr>path_name = ''acs,mjd#5'', edgelist = [plain ''acs'' (Some 1), mjd_edge],
        params = [(''MJD#'', PList [5, 10])], offset = Some ''A''\<rparr>"
  by (simp add: eval_defs walk.simps table_defs mjd_defs mjd_upper)

text \<open>
  Claim C6 as stated fails in three ways. A token with two \<open>#\<close>: the unpacking of the
  split raises ValueError and \<open>traverse\<close> returns no Path. A token whose key is the
  \<open>pvar\<close> of an edge of the path: the returned Path maps the key to the values of the
  file's columns and not to the value of the token. Two tokens with the same key, here
  \<open>a#1\<close> and \<open>A#2\<close>: the parameters keep the value of the token that the iteration over
  the set visits last, so one of the two values is lost in either order, the order of
  the list (\<open>id\<close>) and its reverse.
\<close>

theorem params_counterexample:
  "obsmode_kwds no_files ''a#1#2'' = Inl (ValueError ''too many values to unpack'') \<and>
   traverse no_files acs_heap acs_graph ''a#1#2'' False =
     Inl (ValueError ''too many values to unpack'') \<and>
   traverse mjd_files mjd_heap mjd_graph ''acs,mjd#5'' False =
     Inr \<lparr>path_name = ''acs,mjd#5'', edgelist = [plain ''acs'' (Some 1), mjd_edge],
          params = [(''MJD#'', PList [5, 10])], offset = Some ''A''\<rparr> \<and>
   map_sum id snd (obsmode_kwds (no_files\<lparr>set_order := id\<rparr>) ''a#1,A#2'')
     = Inr [(''A#'', PStr ''2'')] \<and>
   map_sum id snd (obsmode_kwds (no_files\<lparr>set_order := rev\<rparr>) ''a#1,A#2'')
     = Inr [(''A#'', PStr ''1'')]"
proof (intro conjI)
  show "obsmode_kwds no_files ''a#1#2'' = Inl (ValueError ''too many values to unpack'')"
    by (simp add: eval_defs)
  show "traverse no_files acs_heap acs_graph ''a#1#2'' False =
     Inl (ValueError ''too many values to unpack'')"
    by (simp add: eval_defs)
  show "traverse mjd_files mjd_heap mjd_graph ''acs,mjd#5'' False =
     Inr \<lparr>path_name = ''acs,mjd#5'', edgelist = [plain ''acs'' (Some 1), mjd_edge],
          params = [(''MJD#'', PList [5, 10])], offset = Some ''A''\<rparr>"
    by (rule mjd_traverse)
  show "map_sum id snd (obsmode_kwds (no_files\<lparr>set_order := id\<rparr>) ''a#1,A#2'')
     = Inr [(''A#'', PStr ''2'')]"
    by (simp add: obsmode_kwds_def no_files_def pyset_of_list_def pyset_remove_def pyset_add_def
        dict_set_def py_upper_def upper_char_def Let_def char_of_def bit_0)
  show "map_sum id snd (obsmode_kwds (no_files\<lparr>set_order := rev\<rparr>) ''a#1,A#2'')
     = Inr [(''A#'', PStr ''1'')]"
    by (simp add: obsmode_kwds_def no_files_def pyset_of_list_def pyset_remove_def pyset_add_def
        dict_set_def py_upper_def upper_char_def Let_def char_of_def bit_0)
qed

lemma mjd_acs_traverse:
  "traverse mjd_files acs_heap acs_graph ''acs,mjd#5'' False =
   Inr \<lparr>path_name = ''acs,mjd#5'',
        edgelist = [plain ''acs'' (Some 1), plain ''default'' None],
        params = [(''MJD#'', PStr ''5'')], offset = Some ''A''\<rparr>"
  by (simp add: eval_defs walk.simps table_defs mjd_defs mjd_upper)

lemma mjd_iterates_once: "iterates_once mjd_files"
  by (simp add: iterates_once_def mjd_files_def)

theorem obsmode_kwds_params_witness:
  "iterates_once mjd_files \<and>
   py_split CHR '','' ''acs,mjd#5'' = [''acs'', ''mjd#5''] \<and>
   py_split CHR ''#'' ''mjd#5'' = [''mjd'', ''5''] \<and>
   (\<exists>K ps. obsmode_kwds mjd_files ''acs,mjd#5'' = Inr (K, ps) \<and>
      set K = {''acs'', ''mjd#''} \<and> dict_get ps ''MJD#'' = Some (PStr ''5'')) \<and>
   (\<exists>path. traverse mjd_files mjd_heap mjd_graph ''acs,mjd#5'' False = Inr path \<and>
      list_ex (\<lambda>e. pvar e = Some ''MJD#'') (edgelist path) \<and>
      last (filter (\<lambda>e. pvar e = Some ''MJD#'') (edgelist path)) = mjd_edge \<and>
      fits_names mjd_files (filename mjd_edge) = Inr [''WAVELENGTH'', ''MJD#5'', ''MJD#10''] \<and>
      parvalues_loop mjd_files ''MJD#'' [''MJD#5'', ''MJD#10''] [] = Inr [5, 10] \<and>
      dict_get (params path) ''MJD#'' = Some (PList [5, 10])) \<and>
   (\<exists>path. traverse mjd_files acs_heap acs_graph ''acs,mjd#5'' False = Inr path \<and>
      list_all (\<lambda>e. pvar e \<noteq> Some ''MJD#'') (edgelist path) \<and>
      dict_get (params path) ''MJD#'' = Some (PStr ''5'')) \<and>
   py_split CHR ''#'' ''a#1#2'' = [''a'', ''1'', ''2''] \<and>
   obsmode_kwds mjd_files ''a#1#2'' = Inl (ValueError ''too many values to unpack'') \<and>
   traverse mjd_files mjd_heap mjd_graph ''a#1#2'' False =
     Inl (ValueError ''too many values to unpack'')"
proof -
  note it = mjd_iterates_once
  have s1: "py_split CHR '','' ''acs,mjd#5'' = [''acs'', ''mjd#5'']" by simp
  have s2: "py_split CHR ''#'' ''mjd#5'' = [''mjd'', ''5'']" by simp
  have s3: "py_split CHR ''#'' ''a#1#2'' = [''a'', ''1'', ''2'']" by simp
  have one: "\<forall>p\<in>set (py_split CHR '','' ''acs,mjd#5'').
      CHR ''#'' \<in> set p \<longrightarrow> length (py_split CHR ''#'' p) = 2"
    by simp
  have sub: "{p \<in> set (py_split CHR '','' ''acs,mjd#5''). CHR ''#'' \<in> set p} = {''mjd#5''}"
    by auto
  have inj: "inj_on param_key {p \<in> set (py_split CHR '','' ''acs,mjd#5''). CHR ''#'' \<in> set p}"
    unfolding sub by simp
  from obsmode_kwds_params [OF it, of "''acs,mjd#5''"] one inj
  obtain K ps where
    ok: "obsmode_kwds mjd_files ''acs,mjd#5'' = Inr (K, ps)"
    and K: "set K = {t \<in> set (py_split CHR '','' ''acs,mjd#5''). CHR ''#'' \<notin> set t} \<union>
                   param_kwd ` {t \<in> set (py_split CHR '','' ''acs,mjd#5''). CHR ''#'' \<in> set t}"
    and each: "\<forall>p\<in>set (py_split CHR '','' ''acs,mjd#5''). \<forall>k v. py_split CHR ''#'' p = [k, v] \<longrightarrow>
                k @ ''#'' \<in> set K \<and> (v \<noteq> [] \<longrightarrow> p \<notin> set K) \<and>
                dict_get ps (py_upper (k @ ''#'')) = Some (PStr v) \<and>
                (\<forall>h g partial path.
                   traverse mjd_files h g ''acs,mjd#5'' partial = Inr path \<longrightarrow>
                   (list_all (\<lambda>e. pvar e \<noteq> Some (py_upper (k @ ''#''))) (edgelist path) \<longrightarrow>
                      dict_get (params path) (py_upper (k @ ''#'')) = Some (PStr v)) \<and>
                   (list_ex (\<lambda>e. pvar e = Some (py_upper (k @ ''#''))) (edgelist path) \<longrightarrow>
                      (\<exists>names vs.
                         fits_names mjd_files (filename (last (filter
                           (\<lambda>e. pvar e = Some (py_upper (k @ ''#''))) (edgelist path)))) = Inr names \<and>
                         parvalues_loop mjd_files (py_upper (k @ ''#'')) (drop 1 names) [] = Inr vs \<and>
                         dict_get (params path) (py_upper (k @ ''#'')) = Some (PList vs))))"
    by blast
  have "{t \<in> set (py_split CHR '','' ''acs,mjd#5''). CHR ''#'' \<notin> set t} = {''acs''}" by auto
  with K sub have K': "set K = {''acs'', ''mjd#''}" by (auto simp: param_kwd_def)
  have up: "py_upper (''mjd'' @ ''#'') = ''MJD#''" using mjd_upper by simp
  have "''mjd#5'' \<in> set (py_split CHR '','' ''acs,mjd#5'')" by simp
  with each s2 have e5: "dict_get ps (py_upper (''mjd'' @ ''#'')) = Some (PStr ''5'') \<and>
                (\<forall>h g partial path.
                   traverse mjd_files h g ''acs,mjd#5'' partial = Inr path \<longrightarrow>
                   (list_ex (\<lambda>e. pvar e = Some (py_upper (''mjd'' @ ''#''))) (edgelist path) \<longrightarrow>
                      (\<exists>names vs.
                         fits_names mjd_files (filename (last (filter
                           (\<lambda>e. pvar e = Some (py_upper (''mjd'' @ ''#''))) (edgelist path)))) = Inr names \<and>
                         parvalues_loop mjd_files (py_upper (''mjd'' @ ''#'')) (drop 1 names) [] = Inr vs \<and>
                         dict_get (params path) (py_upper (''mjd'' @ ''#'')) = Some (PList vs))))"
    by blast
  then have ps5: "dict_get ps ''MJD#'' = Some (PStr ''5'')" unfolding up by simp
  from each s2 \<open>''mjd#5'' \<in> set (py_split CHR '','' ''acs,mjd#5'')\<close>
  have e5a: "\<forall>h g partial path.
                   traverse mjd_files h g ''acs,mjd#5'' partial = Inr path \<longrightarrow>
                   list_all (\<lambda>e. pvar e \<noteq> Some (py_upper (''mjd'' @ ''#''))) (edgelist path) \<longrightarrow>
                   dict_get (params path) (py_upper (''mjd'' @ ''#'')) = Some (PStr ''5'')"
    by blast
  let ?plain = "\<lparr>path_name = ''acs,mjd#5'',
        edgelist = [plain ''acs'' (Some 1), plain ''default'' None],
        params = [(''MJD#'', PStr ''5'')], offset = Some ''A''\<rparr> :: int path"
  have pla: "list_all (\<lambda>e. pvar e \<noteq> Some ''MJD#'') (edgelist ?plain)"
    by (simp add: plain_def Edge_def)
  from e5a mjd_acs_traverse pla
  have kept: "dict_get (params ?plain) ''MJD#'' = Some (PStr ''5'')"
    unfolding up by blast
  have plainly: "\<exists>path. traverse mjd_files acs_heap acs_graph ''acs,mjd#5'' False = Inr path \<and>
      list_all (\<lambda>e. pvar e \<noteq> Some ''MJD#'') (edgelist path) \<and>
      dict_get (params path) ''MJD#'' = Some (PStr ''5'')"
    using mjd_acs_traverse pla kept by (intro exI [of _ ?plain] conjI)
  let ?path = "\<lparr>path_name = ''acs,mjd#5'', edgelist = [plain ''acs'' (Some 1), mjd_edge],
        params = [(''MJD#'', PList [5, 10])], offset = Some ''A''\<rparr> :: int path"
  have ex: "list_ex (\<lambda>e. pvar e = Some ''MJD#'') (edgelist ?path)"
    by (simp add: mjd_edge_def plain_def Edge_def)
  have la: "last (filter (\<lambda>e. pvar e = Some ''MJD#'') (edgelist ?path)) = mjd_edge"
    by (simp add: mjd_edge_def plain_def Edge_def)
  from e5 mjd_traverse ex obtain names vs where
    f: "fits_names mjd_files (filename (last (filter
          (\<lambda>e. pvar e = Some ''MJD#'') (edgelist ?path)))) = Inr names"
    and pv: "parvalues_loop mjd_files ''MJD#'' (drop 1 names) [] = Inr vs"
    and dg: "dict_get (params ?path) ''MJD#'' = Some (PList vs)"
    unfolding up by blast
  have fn: "fits_names mjd_files (filename mjd_edge) = Inr [''WAVELENGTH'', ''MJD#5'', ''MJD#10'']"
    by (simp add: mjd_files_def mjd_edge_def Edge_def)
  from f fn have names: "names = [''WAVELENGTH'', ''MJD#5'', ''MJD#10'']" unfolding la by simp
  from dg have vs: "vs = [5, 10]" by (simp add: dict_get_def)
  from pv have pl: "parvalues_loop mjd_files ''MJD#'' [''MJD#5'', ''MJD#10''] [] = Inr [5, 10]"
    unfolding names vs by simp
  from dg have dg': "dict_get (params ?path) ''MJD#'' = Some (PList [5, 10])" unfolding vs .
  have second: "\<exists>path. traverse mjd_files mjd_heap mjd_graph ''acs,mjd#5'' False = Inr path \<and>
      list_ex (\<lambda>e. pvar e = Some ''MJD#'') (edgelist path) \<and>
      last (filter (\<lambda>e. pvar e = Some ''MJD#'') (edgelist path)) = mjd_edge \<and>
      fits_names mjd_files (filename mjd_edge) = Inr [''WAVELENGTH'', ''MJD#5'', ''MJD#10''] \<and>
      parvalues_loop mjd_files ''MJD#'' [''MJD#5'', ''MJD#10''] [] = Inr [5, 10] \<and>
      dict_get (params path) ''MJD#'' = Some (PList [5, 10])"
    using mjd_traverse ex la fn pl dg' by (intro exI [of _ ?path] conjI)
  have first: "\<exists>K ps. obsmode_kwds mjd_files ''acs,mjd#5'' = Inr (K, ps) \<and>
      set K = {''acs'', ''mjd#''} \<and> dict_get ps ''MJD#'' = Some (PStr ''5'')"
    using ok K' ps5 by (intro exI [of _ K] exI [of _ ps] conjI)
  have bad: "\<exists>p\<in>set (py_split CHR '','' ''a#1#2'').
             CHR ''#'' \<in> set p \<and> length (py_split CHR ''#'' p) \<noteq> 2"
    by simp
  from obsmode_kwds_params [OF it, of "''a#1#2''"] bad
  have third: "obsmode_kwds mjd_files ''a#1#2'' = Inl (ValueError ''too many values to unpack'')"
    and fourth: "traverse mjd_files mjd_heap mjd_graph ''a#1#2'' False =
     Inl (ValueError ''too many values to unpack'')"
    by blast+
  from it s1 s2 first second plainly s3 third fourth show ?thesis by (intro conjI)
qed

section \<open>get_obsmodes\<close>

text \<open>The key of the rule table that lines 258 to 261 choose.\<close>

definition rules_key :: "(string, rule) dict \<Rightarrow> string \<Rightarrow> string" where
  "rules_key rules obsmode = (if dict_has rules obsmode then obsmode else obsmode @ '',*'')"

lemma traverse_obsrules:
  "traverse w h (g\<lparr>obsmodes := a, obsrules_key := b, obsrules_junk := c, obsrules_excl := d\<rparr>)
     obsmode partial = traverse w h g obsmode partial"
  by (simp add: traverse_def cong: sum.case_cong option.case_cong prod.case_cong)

lemma py_unicode_append: "py_unicode (a @ b) = Inr (a @ b) \<Longrightarrow> py_unicode a = Inr a"
  by (simp add: py_unicode_def split: if_splits)

lemma get_obsmodes_resolved:
  assumes "dict_get rules (rules_key rules obsmode) = Some r"
    and "dict_get rules ''default'' = Some dflt"
  shows "get_obsmodes rules w h limit g obsmode pfx =
     (let self2 = g\<lparr>obsmodes := [], obsrules_key := rules_key rules obsmode,
                      obsrules_junk := junk dflt @ junk r,
                      obsrules_excl := exclude dflt @ exclude r\<rparr> in
      if list_ex (\<lambda>tok. tok \<in> set (obsrules_excl self2)) (py_split CHR '','' obsmode)
      then
        (case py_unicode obsmode of
           Inl e \<Rightarrow> Inl e
         | Inr u \<Rightarrow> Inl (ObsmodeError (''Entered obsmode includes excluded parameters: '' @ u)))
      else
        (case traverse w h g obsmode True of
           Inl e \<Rightarrow> Inl e
         | Inr p \<Rightarrow>
             (case offset p of
                None \<Rightarrow> Inl KeyError
              | Some off \<Rightarrow>
                  (case dict_get (nodes g) off of
                     None \<Rightarrow> Inl KeyError
                   | Some startnode \<Rightarrow>
                       (case recurse limit h (Some startnode) [] self2 of
                          Inl e \<Rightarrow> Inl e
                        | Inr self3 \<Rightarrow>
                            (let self4 = process (if pfx then Some obsmode else None) self3
                             in Inr (obsmodes self4, self4)))))))"
proof -
  from assms(1) have has: "dict_has rules obsmode \<or> dict_has rules (obsmode @ '',*'')"
    by (auto simp: rules_key_def dict_has_def dict_get_def split: if_splits)
  show ?thesis
  proof (cases "dict_has rules obsmode")
    case True
    with assms show ?thesis
      by (simp add: get_obsmodes_def rules_key_def Let_def traverse_obsrules
          cong: sum.case_cong option.case_cong if_cong)
  next
    case False
    with has assms show ?thesis
      by (simp add: get_obsmodes_def rules_key_def Let_def traverse_obsrules
          cong: sum.case_cong option.case_cong if_cong)
  qed
qed

text \<open>
  Claim C8. Let the mode key of the obsmode string resolve in the rule table, by the
  string itself or with \<open>,*\<close> appended, and let the keys of the table be ASCII, as
  those of the module's table are. If a keyword of the string is in the merged exclude
  list, \<open>get_obsmodes\<close> raises the ObsmodeError that names the string, on every graph
  and heap: the walk and the enumeration are not reached. No key of the module's own table
  holds a keyword that its entry excludes, so the statement is about any table.
\<close>

theorem excluded_obsmode_rejected:
  assumes "dict_get rules (rules_key rules obsmode) = Some r"
    and "dict_get rules ''default'' = Some dflt"
    and "\<forall>k\<in>fst ` set rules. py_unicode k = Inr k"
    and "tok \<in> set (py_split CHR '','' obsmode)"
    and "tok \<in> set (exclude dflt @ exclude r)"
  shows "get_obsmodes rules w h limit g obsmode pfx =
           Inl (ObsmodeError (''Entered obsmode includes excluded parameters: '' @ obsmode))"
proof -
  from assms(1) have "rules_key rules obsmode \<in> fst ` set rules"
    by (metis dict_get_def map_of_eq_None_iff option.distinct(1))
  with assms(3) have "py_unicode (rules_key rules obsmode) = Inr (rules_key rules obsmode)"
    by blast
  then have u: "py_unicode obsmode = Inr obsmode"
    by (auto simp: rules_key_def dest: py_unicode_append split: if_splits)
  from assms(4,5)
  have "list_ex (\<lambda>tok. tok \<in> set (exclude dflt @ exclude r)) (py_split CHR '','' obsmode)"
    unfolding list_ex_iff by blast
  with u show ?thesis
    by (simp add: get_obsmodes_resolved [OF assms(1,2)] Let_def)
qed

text \<open>A rule table with a key that holds a keyword excluded by its own entry.\<close>

definition clash_rules :: "(string, rule) dict" where
  "clash_rules =
     [(''default'', \<lparr>junk = ['''', ''None'', ''default''], exclude = [''aper#'']\<rparr>),
      (''acs,wfc1,wfc2'', \<lparr>junk = [''wfc1''], exclude = [''wfc2'']\<rparr>)]"

theorem excluded_obsmode_rejected_witness:
  "dict_get clash_rules (rules_key clash_rules ''acs,wfc1,wfc2'') =
     Some \<lparr>junk = [''wfc1''], exclude = [''wfc2'']\<rparr> \<and>
   dict_get clash_rules ''default'' =
     Some \<lparr>junk = ['''', ''None'', ''default''], exclude = [''aper#'']\<rparr> \<and>
   ''wfc2'' \<in> set (py_split CHR '','' ''acs,wfc1,wfc2'') \<and>
   traverse no_files acs_heap (acs_graph\<lparr>topnode := None\<rparr>) ''acs,wfc1,wfc2'' True =
     Inl AttributeError \<and>
   get_obsmodes clash_rules no_files acs_heap 10 (acs_graph\<lparr>topnode := None\<rparr>)
       ''acs,wfc1,wfc2'' False =
     Inl (ObsmodeError ''Entered obsmode includes excluded parameters: acs,wfc1,wfc2'')"
proof -
  have r: "dict_get clash_rules (rules_key clash_rules ''acs,wfc1,wfc2'') =
     Some \<lparr>junk = [''wfc1''], exclude = [''wfc2'']\<rparr>"
    by (simp add: clash_rules_def rules_key_def dict_get_def dict_has_def)
  have d: "dict_get clash_rules ''default'' =
     Some \<lparr>junk = ['''', ''None'', ''default''], exclude = [''aper#'']\<rparr>"
    by (simp add: clash_rules_def dict_get_def)
  have a: "\<forall>k\<in>fst ` set clash_rules. py_unicode k = Inr k"
    by (simp add: clash_rules_def py_unicode_def)
  have t: "''wfc2'' \<in> set (py_split CHR '','' ''acs,wfc1,wfc2'')" by simp
  have x: "''wfc2'' \<in> set (exclude \<lparr>junk = ['''', ''None'', ''default''], exclude = [''aper#'']\<rparr> @
      exclude \<lparr>junk = [''wfc1''], exclude = [''wfc2'']\<rparr>)" by simp
  have tr: "traverse no_files acs_heap (acs_graph\<lparr>topnode := None\<rparr>) ''acs,wfc1,wfc2'' True =
     Inl AttributeError"
    by (simp add: eval_defs acs_graph_def)
  from excluded_obsmode_rejected [OF r d a t x, of no_files acs_heap 10 "acs_graph\<lparr>topnode := None\<rparr>" False]
    r d t tr
  show ?thesis by simp
qed

lemma walk_no_match:
  assumes "traverse w h g obsmode partial = Inr (p :: 'f path)"
    and "obsmode_kwds w obsmode = Inr (K, ps)"
    and "list_all (\<lambda>e. kwd e \<notin> set K \<or> kwd e = ''default'') (edgelist p)"
  shows "offset p = None"
proof -
  from traverse_walk [OF assms(1)] assms(2) obtain r st' where
    w: "walk w h (dict_len (nodes g)) K partial (walk_init (Path obsmode ps) r) = Inr st'"
    and p: "p = ans st'" by auto
  from walk_offset [OF w] p
  have "offset p = (if offset_writes h K [] (edgelist p) = [] then None
                     else Some (last (offset_writes h K [] (edgelist p))))"
    by (auto simp: walk_init_def Path_def)
  with offset_writes_none [OF assms(3)] show ?thesis by simp
qed

text \<open>
  Claim C9. When the mode key resolves, no keyword is excluded, and the walk in partial
  mode returns a Path none of whose edges has a keyword of the keyword set other than
  \<open>default\<close>, the offset of the Path is None and \<open>get_obsmodes\<close> raises the KeyError of
  \<open>self[offset]\<close>, not an ObsmodeError.
\<close>

theorem no_match_key_error:
  assumes "dict_get rules (rules_key rules obsmode) = Some r"
    and "dict_get rules ''default'' = Some dflt"
    and "\<not> list_ex (\<lambda>tok. tok \<in> set (exclude dflt @ exclude r)) (py_split CHR '','' obsmode)"
    and "obsmode_kwds w obsmode = Inr (K, ps)"
    and "traverse w h g obsmode True = Inr (p :: 'f path)"
    and "list_all (\<lambda>e. kwd e \<notin> set K \<or> kwd e = ''default'') (edgelist p)"
  shows "offset p = None \<and> get_obsmodes rules w h limit g obsmode pfx = Inl KeyError"
proof -
  from walk_no_match [OF assms(5,4,6)] have off: "offset p = None" .
  with assms(3,5) have "get_obsmodes rules w h limit g obsmode pfx = Inl KeyError"
    by (simp add: get_obsmodes_resolved [OF assms(1,2)] Let_def)
  with off show ?thesis by simp
qed

theorem no_match_key_error_witness:
  "dict_get rules_dict (rules_key rules_dict ''nicmos,1'') = Some \<lparr>junk = [], exclude = []\<rparr> \<and>
   dict_get rules_dict ''default'' =
     Some \<lparr>junk = ['''', ''None'', ''default''], exclude = [''aper#'']\<rparr> \<and>
   obsmode_kwds no_files ''nicmos,1'' =
     Inr ([''nicmos'', ''1''], []) \<and>
   traverse no_files acs_heap acs_graph ''nicmos,1'' True =
     Inr \<lparr>path_name = ''nicmos,1'', edgelist = [plain ''default'' None], params = [],
          offset = None\<rparr> \<and>
   get_obsmodes rules_dict no_files acs_heap 10 acs_graph ''nicmos,1'' False = Inl KeyError"
proof -
  have r: "dict_get rules_dict (rules_key rules_dict ''nicmos,1'') = Some \<lparr>junk = [], exclude = []\<rparr>"
    by (simp add: rules_dict_def rules_key_def dict_get_def dict_has_def)
  have d: "dict_get rules_dict ''default'' =
     Some \<lparr>junk = ['''', ''None'', ''default''], exclude = [''aper#'']\<rparr>"
    by (simp add: rules_dict_def dict_get_def)
  have x: "\<not> list_ex (\<lambda>tok. tok \<in> set (exclude \<lparr>junk = ['''', ''None'', ''default''], exclude = [''aper#'']\<rparr> @
      exclude \<lparr>junk = [], exclude = []\<rparr>)) (py_split CHR '','' ''nicmos,1'')"
    by simp
  have k: "obsmode_kwds no_files ''nicmos,1'' =
     Inr ([''nicmos'', ''1''], [])"
    by (simp add: eval_defs)
  have t: "traverse no_files acs_heap acs_graph ''nicmos,1'' True =
     Inr \<lparr>path_name = ''nicmos,1'', edgelist = [plain ''default'' None], params = [],
          offset = None\<rparr>"
    by (simp add: eval_defs walk.simps table_defs)
  have n: "list_all (\<lambda>e. kwd e \<notin> set [''nicmos'', ''1''] \<or> kwd e = ''default'')
      (edgelist \<lparr>path_name = ''nicmos,1'', edgelist = [plain ''default'' None],
                 params = ([] :: (string, unit pval) dict), offset = None\<rparr>)"
    by (simp add: plain_def Edge_def)
  from no_match_key_error [OF r d x k t n, of 10 False] r d k t
  show ?thesis by simp
qed

section \<open>The enumeration\<close>

text \<open>
  \<open>chain G so_far s\<close>: the string \<open>s\<close> is \<open>so_far\<close> followed by \<open>,k\<close> for each keyword
  \<open>k\<close> of a list that is not empty and whose keywords all satisfy \<open>G\<close>. These are the
  candidates that \<open>recurse\<close> records.
\<close>

definition chain :: "(string \<Rightarrow> bool) \<Rightarrow> string \<Rightarrow> string \<Rightarrow> bool" where
  "chain G so_far s = (\<exists>ks. ks \<noteq> [] \<and> list_all G ks \<and> s = so_far @ concat (map (\<lambda>k. '','' @ k) ks))"

lemma chain_single: "G k \<Longrightarrow> chain G so_far (so_far @ '','' @ k)"
  unfolding chain_def by (rule exI [of _ "[k]"]) simp

lemma chain_extend:
  assumes "G k" and "chain G (so_far @ '','' @ k) s"
  shows "chain G so_far s"
proof -
  from assms(2) obtain ks where ks: "list_all G ks" "s = (so_far @ '','' @ k) @ concat (map (\<lambda>k. '','' @ k) ks)"
    unfolding chain_def by blast
  with assms(1) have "k # ks \<noteq> [] \<and> list_all G (k # ks) \<and>
      s = so_far @ concat (map (\<lambda>k. '','' @ k) (k # ks))" by simp
  then show ?thesis unfolding chain_def by blast
qed

lemma recurse_chain:
  fixes h :: heap and G :: "string \<Rightarrow> bool"
  shows "recurse d h nd so_far g = Inr g' \<Longrightarrow>
           \<forall>r. list_all (\<lambda>e. G (kwd e)) (dict_values (edges (h r))) \<Longrightarrow>
           obsrules_excl g' = obsrules_excl g \<and> obsrules_junk g' = obsrules_junk g \<and>
           (\<exists>new. obsmodes g' = obsmodes g @ new \<and>
              list_all (chain (\<lambda>k. G k \<and> k \<notin> set (obsrules_excl g)) so_far) new)"
    and "recurse_edges d h es so_far g = Inr g' \<Longrightarrow> list_all (\<lambda>e. G (kwd e)) es \<Longrightarrow>
           \<forall>r. list_all (\<lambda>e. G (kwd e)) (dict_values (edges (h r))) \<Longrightarrow>
           obsrules_excl g' = obsrules_excl g \<and> obsrules_junk g' = obsrules_junk g \<and>
           (\<exists>new. obsmodes g' = obsmodes g @ new \<and>
              list_all (chain (\<lambda>k. G k \<and> k \<notin> set (obsrules_excl g)) so_far) new)"
proof (induction d h nd so_far g and d h es so_far g arbitrary: g' and g'
    rule: recurse_recurse_edges.induct)
  case (1 h nd so_far self)
  then show ?case by simp
next
  case (2 d h so_far self)
  then show ?case by simp
next
  case (3 d h r so_far self)
  from "3.prems"(2) have "list_all (\<lambda>e. G (kwd e)) (dict_values (edges (h r)))" by simp
  from "3.IH" [OF _ this "3.prems"(2)] "3.prems"(1) show ?case by simp
next
  case (4 d h so_far self)
  then show ?case by simp
next
  case (5 d h e es so_far self)
  from "5.prems"(2) have Ge: "G (kwd e)" and Ges: "list_all (\<lambda>e. G (kwd e)) es" by simp_all
  show ?case
  proof (cases "kwd e \<in> set (obsrules_excl self)")
    case True
    with "5.prems"(1) have "recurse_edges d h es so_far self = Inr g'" by simp
    from "5.IH"(1) [OF True this Ges "5.prems"(3)] show ?thesis .
  next
    case False
    let ?further = "so_far @ '','' @ kwd e"
    let ?self1 = "if kwd e \<notin> set (obsrules_junk self)
                 then self\<lparr>obsmodes := obsmodes self @ [?further]\<rparr> else self"
    let ?A = "\<lambda>k. G k \<and> k \<notin> set (obsrules_excl self)"
    from False "5.prems"(1) obtain self2 where
      r1: "recurse d h (destination e) ?further ?self1 = Inr self2"
      and r2: "recurse_edges d h es so_far self2 = Inr g'"
      by (simp split: sum.splits)
    have s1: "obsrules_excl ?self1 = obsrules_excl self" "obsrules_junk ?self1 = obsrules_junk self"
      by simp_all
    from "5.IH"(2) [OF False r1 "5.prems"(3)] s1 obtain new1 where
      e1: "obsrules_excl self2 = obsrules_excl self" "obsrules_junk self2 = obsrules_junk self"
      and n1: "obsmodes self2 = obsmodes ?self1 @ new1"
        "list_all (chain ?A ?further) new1"
      by auto
    from "5.IH"(3) [OF False r1 r2 Ges "5.prems"(3)] e1 obtain new2 where
      e2: "obsrules_excl g' = obsrules_excl self" "obsrules_junk g' = obsrules_junk self"
      and n2: "obsmodes g' = obsmodes self2 @ new2" "list_all (chain ?A so_far) new2"
      by auto
    from Ge False have A: "?A (kwd e)" by simp
    have c1: "list_all (chain ?A so_far) new1"
      using n1(2) chain_extend [of ?A "kwd e" so_far, OF A] unfolding list_all_iff by blast
    have c0: "chain ?A so_far ?further" using chain_single [of ?A "kwd e" so_far, OF A] .
    obtain new0 where n0: "obsmodes ?self1 = obsmodes self @ new0" "list_all (chain ?A so_far) new0"
    proof (cases "kwd e \<notin> set (obsrules_junk self)")
      case True
      with c0 have "obsmodes ?self1 = obsmodes self @ [?further]" "list_all (chain ?A so_far) [?further]"
        by simp_all
      then show ?thesis by (rule that)
    next
      case False
      then have "obsmodes ?self1 = obsmodes self @ []" "list_all (chain ?A so_far) []" by simp_all
      then show ?thesis by (rule that)
    qed
    have "obsmodes g' = obsmodes self @ (new0 @ new1 @ new2)"
      using n0(1) n1(1) n2(1) by simp
    moreover have "list_all (chain ?A so_far) (new0 @ new1 @ new2)"
      using n0(2) c1 n2(2) by simp
    ultimately show ?thesis using e2 by blast
  qed
qed

section \<open>Replacing in strings\<close>

lemma py_replace_Nil: "old \<noteq> [] \<Longrightarrow> py_replace old new [] = []"
  by (subst py_replace.simps) simp

lemma py_replace_Cons:
  "old \<noteq> [] \<Longrightarrow> py_replace old new (c # cs) =
     (if prefix old (c # cs) then new @ py_replace old new (drop (length old) (c # cs))
      else c # py_replace old new cs)"
  by (subst py_replace.simps) simp

lemma py_replace_match: "old \<noteq> [] \<Longrightarrow> py_replace old new (old @ rest) = new @ py_replace old new rest"
  by (subst py_replace.simps) simp

lemma py_replace_skip:
  "old \<noteq> [] \<Longrightarrow> \<not> prefix old (c # cs) \<Longrightarrow> py_replace old new (c # cs) = c # py_replace old new cs"
  by (simp add: py_replace_Cons)

lemma py_replace_skip_chars:
  "old \<noteq> [] \<Longrightarrow> hd old \<notin> set u \<Longrightarrow> py_replace old new (u @ rest) = u @ py_replace old new rest"
proof (induction u)
  case Nil
  show ?case by simp
next
  case (Cons c u)
  from Cons.prems have "\<not> prefix old (c # u @ rest)"
    by (cases old) auto
  with Cons show ?case by (simp add: py_replace_skip)
qed

lemma py_replace_no_sep:
  assumes "sep \<in> set old" and "sep \<notin> set u"
  shows "py_replace old new u = u"
  using assms(2)
proof (induction u)
  case Nil
  from assms(1) have "old \<noteq> []" by auto
  then show ?case by (rule py_replace_Nil)
next
  case (Cons c u)
  from assms(1) have ne: "old \<noteq> []" by auto
  have "\<not> prefix old (c # u)"
  proof
    assume "prefix old (c # u)"
    then have "set old \<subseteq> set (c # u)" by (rule set_mono_prefix)
    with assms(1) Cons.prems show False by auto
  qed
  with ne Cons show ?case by (simp add: py_replace_skip)
qed

lemma prefix_sep_eq:
  "sep \<notin> set x \<Longrightarrow> sep \<notin> set y \<Longrightarrow> prefix (x @ [sep]) (y @ sep # rest) \<Longrightarrow> x = y"
proof (induction x arbitrary: y)
  case Nil
  then show ?case by (cases y) auto
next
  case (Cons a x)
  then show ?case by (cases y) auto
qed

lemma py_replace_token_skip:
  assumes "CHR '','' \<notin> set j" and "j \<noteq> []"
  shows "CHR '','' \<notin> set u \<Longrightarrow> \<not> suffix j u \<Longrightarrow>
         py_replace (j @ '','') new (u @ CHR '','' # rest) = u @ CHR '','' # py_replace (j @ '','') new rest"
proof (induction u)
  case Nil
  from assms have "\<not> prefix (j @ '','') (CHR '','' # rest)" by (cases j) auto
  then show ?case by (simp add: py_replace_skip)
next
  case (Cons c u)
  have "\<not> prefix (j @ '','') ((c # u) @ CHR '','' # rest)"
  proof
    assume "prefix (j @ '','') ((c # u) @ CHR '','' # rest)"
    with assms(1) Cons.prems(1) have "j = c # u" by (rule prefix_sep_eq)
    with Cons.prems(2) show False by simp
  qed
  then have "py_replace (j @ '','') new ((c # u) @ CHR '','' # rest) =
      c # py_replace (j @ '','') new (u @ CHR '','' # rest)"
    by (simp add: py_replace_skip)
  moreover from Cons.prems have "CHR '','' \<notin> set u" "\<not> suffix j u"
    by (auto simp: suffix_Cons)
  ultimately show ?case using Cons.IH by simp
qed

lemma tokens_replace_junk:
  assumes "CHR '','' \<notin> set j" and "j \<noteq> []"
  shows "py_split CHR '','' s = ts \<Longrightarrow> list_all (\<lambda>t. suffix j t \<longrightarrow> t = j) ts \<Longrightarrow>
         set (py_split CHR '','' (py_replace (j @ '','') [] s)) \<subseteq> set ts"
proof (induction ts arbitrary: s)
  case Nil
  then show ?case by (simp add: py_split_not_Nil)
next
  case (Cons t ts)
  from py_split_decomp [OF Cons.prems(1)]
  have t: "CHR '','' \<notin> set t"
    and d: "if ts = [] then s = t else \<exists>rest. s = t @ CHR '','' # rest \<and> py_split CHR '','' rest = ts"
    by simp_all
  show ?case
  proof (cases "ts = []")
    case True
    with d have "s = t" by simp
    with t have "py_replace (j @ '','') [] s = s"
      by (simp add: py_replace_no_sep [of "CHR '',''"])
    with Cons.prems(1) show ?thesis by simp
  next
    case False
    with d obtain rest where s: "s = t @ CHR '','' # rest" and r: "py_split CHR '','' rest = ts"
      by auto
    from Cons.prems(2) have ts: "list_all (\<lambda>t. suffix j t \<longrightarrow> t = j) ts" by simp
    from Cons.IH [OF r ts]
    have ih: "set (py_split CHR '','' (py_replace (j @ '','') [] rest)) \<subseteq> set ts" .
    show ?thesis
    proof (cases "t = j")
      case True
      with s have "s = (j @ '','') @ rest" by simp
      moreover have "py_replace (j @ '','') [] ((j @ '','') @ rest) =
          [] @ py_replace (j @ '','') [] rest"
        by (rule py_replace_match) simp
      ultimately have "py_replace (j @ '','') [] s = py_replace (j @ '','') [] rest"
        by simp
      with ih show ?thesis by auto
    next
      case neq: False
      with Cons.prems(2) have "\<not> suffix j t" by auto
      with assms t s have "py_replace (j @ '','') [] s =
          t @ CHR '','' # py_replace (j @ '','') [] rest"
        by (simp add: py_replace_token_skip)
      with t have "py_split CHR '','' (py_replace (j @ '','') [] s) =
          t # py_split CHR '','' (py_replace (j @ '','') [] rest)"
        by (simp add: py_split_first)
      with ih show ?thesis by auto
    qed
  qed
qed

lemma tokens_replace_empty:
  "set (py_split CHR '','' (py_replace '',,'' '','' s)) \<subseteq> set (py_split CHR '','' s)"
proof (induction "length s" arbitrary: s rule: less_induct)
  case less
  obtain t ts where sp: "py_split CHR '','' s = t # ts"
    by (cases "py_split CHR '','' s") (auto simp: py_split_not_Nil)
  from py_split_decomp [OF sp]
  have t: "CHR '','' \<notin> set t"
    and d: "if ts = [] then s = t else \<exists>rest. s = t @ CHR '','' # rest \<and> py_split CHR '','' rest = ts"
    by simp_all
  show ?case
  proof (cases "ts = []")
    case True
    with d have "s = t" by simp
    with t have "py_replace '',,'' '','' s = s"
      by (simp add: py_replace_no_sep [of "CHR '',''"])
    then show ?thesis by simp
  next
    case False
    with d obtain rest where s: "s = t @ CHR '','' # rest" and r: "py_split CHR '','' rest = ts"
      by auto
    from t have skip: "py_replace '',,'' '','' s = t @ py_replace '',,'' '','' (CHR '','' # rest)"
      unfolding s by (simp add: py_replace_skip_chars)
    show ?thesis
    proof (cases rest)
      case Nil
      then have "py_replace '',,'' '','' (CHR '','' # rest) = '',''"
        by (simp add: py_replace_Cons py_replace_Nil)
      with skip t have "py_split CHR '','' (py_replace '',,'' '','' s) = [t, []]"
        using py_split_first [of "CHR '',''" t "[]"] by simp
      moreover from Nil s t have "py_split CHR '','' s = [t, []]"
        using py_split_first [of "CHR '',''" t "[]"] by simp
      ultimately show ?thesis by simp
    next
      case (Cons c rest')
      show ?thesis
      proof (cases "c = CHR '',''")
        case True
        with Cons have m: "py_replace '',,'' '','' (CHR '','' # rest) =
            CHR '','' # py_replace '',,'' '','' rest'"
          by (simp add: py_replace_Cons)
        from s Cons have "length rest' < length s" by simp
        from less.hyps [OF this]
        have ih: "set (py_split CHR '','' (py_replace '',,'' '','' rest')) \<subseteq> set (py_split CHR '','' rest')" .
        from skip m t have "py_split CHR '','' (py_replace '',,'' '','' s) =
            t # py_split CHR '','' (py_replace '',,'' '','' rest')"
          by (simp add: py_split_first)
        moreover from s Cons True t have "py_split CHR '','' s = t # [] # py_split CHR '','' rest'"
          using py_split_first [of "CHR '',''" t "CHR '','' # rest'"] by simp
        ultimately show ?thesis using ih by auto
      next
        case False
        with Cons have m: "py_replace '',,'' '','' (CHR '','' # rest) =
            CHR '','' # py_replace '',,'' '','' rest"
          by (simp add: py_replace_Cons)
        from s have "length rest < length s" by simp
        from less.hyps [OF this]
        have ih: "set (py_split CHR '','' (py_replace '',,'' '','' rest)) \<subseteq> set (py_split CHR '','' rest)" .
        from skip m t have "py_split CHR '','' (py_replace '',,'' '','' s) =
            t # py_split CHR '','' (py_replace '',,'' '','' rest)"
          by (simp add: py_split_first)
        moreover from s t have "py_split CHR '','' s = t # py_split CHR '','' rest"
          by (simp add: py_split_first)
        ultimately show ?thesis using ih by auto
      qed
    qed
  qed
qed

section \<open>The result of get_obsmodes\<close>

lemma prefix_comma_iff: "prefix '','' s \<longleftrightarrow> (\<exists>t. s = CHR '','' # t)"
  by (cases s) auto

lemma replace_keeps_comma:
  assumes "old \<noteq> []" and "hd old \<noteq> CHR '','' \<or> prefix '','' new"
  shows "prefix '','' (py_replace old new (CHR '','' # s))"
proof (cases "prefix old (CHR '','' # s)")
  case True
  with assms(1) have "hd old = CHR '',''" by (cases old) auto
  with assms(2) have "prefix '','' new" by simp
  moreover from True assms(1)
  have "py_replace old new (CHR '','' # s) =
      new @ py_replace old new (drop (length old) (CHR '','' # s))"
    by (simp add: py_replace_Cons)
  ultimately show ?thesis by (simp add: prefix_prefix)
next
  case False
  with assms(1) show ?thesis by (simp add: py_replace_Cons)
qed

lemma strip_junk_comma:
  "list_all (\<lambda>j. j = [] \<or> hd j \<noteq> CHR '','') junks \<Longrightarrow> list_all (prefix '','') obs \<Longrightarrow>
   list_all (prefix '','') (strip_junk junks obs)"
proof (induction junks arbitrary: obs)
  case Nil
  then show ?case by simp
next
  case (Cons jk junks)
  from Cons.prems(1) have jk: "jk = [] \<or> hd jk \<noteq> CHR '',''"
    and rest: "list_all (\<lambda>j. j = [] \<or> hd j \<noteq> CHR '','') junks" by simp_all
  have "list_all (prefix '','')
      (if jk = [] then map (py_replace '',,'' '','') obs else map (py_replace (jk @ '','') []) obs)"
  proof (cases "jk = []")
    case True
    have "prefix '','' (py_replace '',,'' '','' s)" if "prefix '','' s" for s
    proof -
      from that obtain t where "s = CHR '','' # t" by (auto simp: prefix_comma_iff)
      then show ?thesis using replace_keeps_comma [of "'',,''" "'',''" t] by simp
    qed
    with Cons.prems(2) True show ?thesis by (simp add: list_all_iff)
  next
    case False
    with jk have h: "hd (jk @ '','') \<noteq> CHR '',''" by simp
    have "prefix '','' (py_replace (jk @ '','') [] s)" if "prefix '','' s" for s
    proof -
      from that obtain t where "s = CHR '','' # t" by (auto simp: prefix_comma_iff)
      then show ?thesis using replace_keeps_comma [of "jk @ '',''" "[]" t] h by simp
    qed
    with Cons.prems(2) False show ?thesis by (simp add: list_all_iff)
  qed
  from Cons.IH [OF rest this] show ?case by simp
qed

lemma chain_comma: "chain G [] s \<Longrightarrow> prefix '','' s"
proof -
  assume "chain G [] s"
  then obtain ks where "ks \<noteq> []" and "s = [] @ concat (map (\<lambda>k. '','' @ k) ks)"
    unfolding chain_def by blast
  then show ?thesis by (cases ks) auto
qed

lemma get_obsmodes_Inr:
  assumes "get_obsmodes rules w h limit g obsmode pfx = Inr (L, g')"
  shows "\<exists>r dflt start self3.
      dict_get rules (rules_key rules obsmode) = Some r \<and>
      dict_get rules ''default'' = Some dflt \<and>
      \<not> list_ex (\<lambda>tok. tok \<in> set (exclude dflt @ exclude r)) (py_split CHR '','' obsmode) \<and>
      recurse limit h (Some start) []
        (g\<lparr>obsmodes := [], obsrules_key := rules_key rules obsmode,
           obsrules_junk := junk dflt @ junk r,
           obsrules_excl := exclude dflt @ exclude r\<rparr>) = Inr self3 \<and>
      g' = process (if pfx then Some obsmode else None) self3 \<and> L = obsmodes g'"
proof -
  have has: "dict_has rules (rules_key rules obsmode)"
  proof (rule ccontr)
    assume n: "\<not> dict_has rules (rules_key rules obsmode)"
    then have "\<not> dict_has rules obsmode" "\<not> dict_has rules (obsmode @ '',*'')"
      by (auto simp: rules_key_def split: if_splits)
    then have "get_obsmodes rules w h limit g obsmode pfx =
        (case py_unicode obsmode of
           Inl e \<Rightarrow> Inl e
         | Inr u \<Rightarrow> Inl (ObsmodeError (''Unsupported obsmode string: '' @ u)))"
      by (cases "py_unicode obsmode") (simp_all add: get_obsmodes_def Let_def)
    with assms show False by (cases "py_unicode obsmode") simp_all
  qed
  then obtain r where r: "dict_get rules (rules_key rules obsmode) = Some r"
    by (auto simp: dict_has_def dict_get_def)
  have key: "(if dict_has rules obsmode then Inr obsmode
            else if dict_has rules (obsmode @ '',*'') then Inr (obsmode @ '',*'')
            else (case py_unicode obsmode of
                    Inl e \<Rightarrow> Inl e
                  | Inr u \<Rightarrow> Inl (ObsmodeError (''Unsupported obsmode string: '' @ u)))) =
        Inr (rules_key rules obsmode)"
    using has by (auto simp: rules_key_def)
  obtain dflt where d: "dict_get rules ''default'' = Some dflt"
  proof (cases "dict_get rules ''default''")
    case None
    with key have "get_obsmodes rules w h limit g obsmode pfx = Inl KeyError"
      by (simp add: get_obsmodes_def Let_def)
    with assms show ?thesis by simp
  next
    case (Some x)
    then show ?thesis by (rule that)
  qed
  let ?self2 = "g\<lparr>obsmodes := [], obsrules_key := rules_key rules obsmode,
                   obsrules_junk := junk dflt @ junk r,
                   obsrules_excl := exclude dflt @ exclude r\<rparr>"
  note unf = get_obsmodes_resolved [OF r d, of w h limit g pfx]
  have ex: "\<not> list_ex (\<lambda>tok. tok \<in> set (exclude dflt @ exclude r)) (py_split CHR '','' obsmode)"
  proof
    assume "list_ex (\<lambda>tok. tok \<in> set (exclude dflt @ exclude r)) (py_split CHR '','' obsmode)"
    with unf have "get_obsmodes rules w h limit g obsmode pfx =
        (case py_unicode obsmode of
           Inl e \<Rightarrow> Inl e
         | Inr u \<Rightarrow> Inl (ObsmodeError (''Entered obsmode includes excluded parameters: '' @ u)))"
      by (simp add: Let_def)
    with assms show False by (cases "py_unicode obsmode") simp_all
  qed
  have unf2: "get_obsmodes rules w h limit g obsmode pfx =
        (case traverse w h g obsmode True of
           Inl e \<Rightarrow> Inl e
         | Inr p \<Rightarrow>
             (case offset p of
                None \<Rightarrow> Inl KeyError
              | Some off \<Rightarrow>
                  (case dict_get (nodes g) off of
                     None \<Rightarrow> Inl KeyError
                   | Some startnode \<Rightarrow>
                       (case recurse limit h (Some startnode) [] ?self2 of
                          Inl e \<Rightarrow> Inl e
                        | Inr self3 \<Rightarrow>
                            Inr (obsmodes (process (if pfx then Some obsmode else None) self3),
                                 process (if pfx then Some obsmode else None) self3)))))"
    unfolding unf Let_def using ex by simp
  from assms unf2 obtain p where p: "traverse w h g obsmode True = Inr p"
    by (cases "traverse w h g obsmode True") simp_all
  from assms unf2 p obtain off where off: "offset p = Some off"
    by (cases "offset p") simp_all
  from assms unf2 p off obtain start where st: "dict_get (nodes g) off = Some start"
    by (cases "dict_get (nodes g) off") simp_all
  from assms unf2 p off st obtain self3 where
    s3: "recurse limit h (Some start) [] ?self2 = Inr self3"
    by (cases "recurse limit h (Some start) [] ?self2") simp_all
  from assms unf2 p off st s3
  have "g' = process (if pfx then Some obsmode else None) self3" "L = obsmodes g'"
    by auto
  with r d ex s3 show ?thesis by blast
qed

lemma rules_dict_entry:
  "dict_get rules_dict k = Some r \<Longrightarrow>
   list_all (\<lambda>j. CHR '','' \<notin> set j) (junk r) \<and> list_all (\<lambda>x. x \<noteq> []) (exclude r)"
  by (auto simp: dict_get_def rules_dict_def split: if_splits)

lemma comma_free_hd: "CHR '','' \<notin> set j \<Longrightarrow> j = [] \<or> hd j \<noteq> CHR '',''"
  by (cases j) auto

text \<open>
  Claim C10. With the module's rule table and no prefix, every string of the list that
  \<open>get_obsmodes\<close> returns begins with a comma: every candidate of \<open>recurse\<close> does, no
  junk keyword of the table begins with a comma, and the replacement of \<open>,,\<close> puts a
  comma back.
\<close>

theorem obsmodes_start_with_comma:
  assumes "get_obsmodes rules_dict w h limit g obsmode False = Inr (L, g')"
  shows "list_all (prefix '','') L"
proof -
  from get_obsmodes_Inr [OF assms] obtain r dflt start self3 where
    r: "dict_get rules_dict (rules_key rules_dict obsmode) = Some r"
    and d: "dict_get rules_dict ''default'' = Some dflt"
    and rec: "recurse limit h (Some start) []
        (g\<lparr>obsmodes := [], obsrules_key := rules_key rules_dict obsmode,
           obsrules_junk := junk dflt @ junk r,
           obsrules_excl := exclude dflt @ exclude r\<rparr>) = Inr self3"
    and g': "g' = process None self3" and L: "L = obsmodes g'"
    by auto
  have "\<forall>r. list_all (\<lambda>e. True) (dict_values (edges (h r)))"
    by (simp add: list_all_iff)
  from recurse_chain(1) [OF rec, of "\<lambda>_. True", OF this] obtain new where
    j3: "obsrules_junk self3 = junk dflt @ junk r"
    and n: "obsmodes self3 = new"
      "list_all (chain (\<lambda>k. True \<and> k \<notin> set (exclude dflt @ exclude r)) []) new"
    by auto
  from n have c: "list_all (prefix '','') (obsmodes self3)"
    by (auto simp: list_all_iff dest: chain_comma)
  from rules_dict_entry [OF r] rules_dict_entry [OF d]
  have "list_all (\<lambda>j. CHR '','' \<notin> set j) (junk dflt @ junk r)" by simp
  then have "list_all (\<lambda>j. j = [] \<or> hd j \<noteq> CHR '','') (obsrules_junk self3)"
    unfolding j3 list_all_iff using comma_free_hd by blast
  from strip_junk_comma [OF this c] g' L show ?thesis
    by (simp add: process_def)
qed

lemmas obsmodes_defs = get_obsmodes_def process_def dict_values_def py_unicode_def
  rules_dict_def py_replace_Cons py_replace_Nil

lemma acs_wfc1_obsmodes:
  "get_obsmodes rules_dict no_files acs_heap 10 acs_graph ''acs,wfc1'' False =
     Inr (['',f555w''],
          acs_graph\<lparr>obsmodes := ['',f555w''], obsrules_key := ''acs,wfc1'',
                      obsrules_junk := ['''', ''None'', ''default'', ''wfc1''],
                      obsrules_excl := [''aper#'', ''wfc2'']\<rparr>)"
  by (simp add: obsmodes_defs eval_defs walk.simps table_defs eval_nat_numeral)

theorem obsmodes_start_with_comma_witness:
  "get_obsmodes rules_dict no_files acs_heap 10 acs_graph ''acs,wfc1'' False =
     Inr (['',f555w''],
          acs_graph\<lparr>obsmodes := ['',f555w''], obsrules_key := ''acs,wfc1'',
                      obsrules_junk := ['''', ''None'', ''default'', ''wfc1''],
                      obsrules_excl := [''aper#'', ''wfc2'']\<rparr>) \<and>
   list_all (prefix '','') ['',f555w'']"
  using obsmodes_start_with_comma [OF acs_wfc1_obsmodes] acs_wfc1_obsmodes by simp

section \<open>Junk keywords in the result\<close>

text \<open>
  A table with two empty keywords in a row: \<open>top\<close> has the edge \<open>acs\<close> to \<open>A\<close>, \<open>A\<close> has
  \<open>wfc1\<close> to \<open>B\<close>, \<open>B\<close> has the empty keyword to \<open>C\<close>, \<open>C\<close> has the empty keyword to \<open>D\<close>,
  and \<open>D\<close> has \<open>f555w\<close> to nothing.
\<close>

definition blank_heap :: heap where
  "blank_heap r =
     (if r = 0 then mk_node ''top'' [plain ''acs'' (Some 1)]
      else if r = 1 then mk_node ''A'' [plain ''wfc1'' (Some 2)]
      else if r = 2 then mk_node ''B'' [plain [] (Some 3)]
      else if r = 3 then mk_node ''C'' [plain [] (Some 4)]
      else if r = 4 then mk_node ''D'' [plain ''f555w'' None]
      else Node '''')"

definition blank_graph :: graph where
  "blank_graph = \<lparr>nodes = [(''top'', 0), (''A'', 1), (''B'', 2), (''C'', 3), (''D'', 4)],
                  topnode = Some 0,
                  obsmodes = [], obsrules_key = [], obsrules_junk = [], obsrules_excl = []\<rparr>"

lemma blank_graph_built: "Graph blank_heap (Some [0, 1, 2, 3, 4]) = Inr blank_graph"
  by (simp add: Graph_def add_node_def table_defs blank_heap_def blank_graph_def)

lemma blank_recurse:
  "recurse 10 blank_heap (Some 2) []
     (blank_graph\<lparr>obsrules_key := ''acs,wfc1'',
                   obsrules_junk := ['''', ''None'', ''default'', ''wfc1''],
                   obsrules_excl := [''aper#'', ''wfc2'']\<rparr>) =
   Inr (blank_graph\<lparr>obsmodes := ['',,,f555w''], obsrules_key := ''acs,wfc1'',
                   obsrules_junk := ['''', ''None'', ''default'', ''wfc1''],
                   obsrules_excl := [''aper#'', ''wfc2'']\<rparr>)"
  by (simp add: dict_values_def table_defs blank_heap_def blank_graph_def eval_nat_numeral)

text \<open>
  Claim C7 fails on this table: \<open>recurse\<close> gives the candidate \<open>,,,f555w\<close>, and the one
  pass of \<open>replace(',,', ',')\<close> leaves \<open>,,f555w\<close>, which still holds the empty keyword with
  its comma. With a prefix the list is the prefix and the prefixed string.
\<close>

theorem empty_keyword_left:
  "recurse 10 blank_heap (Some 2) []
     (blank_graph\<lparr>obsrules_key := ''acs,wfc1'',
                   obsrules_junk := ['''', ''None'', ''default'', ''wfc1''],
                   obsrules_excl := [''aper#'', ''wfc2'']\<rparr>) =
   Inr (blank_graph\<lparr>obsmodes := ['',,,f555w''], obsrules_key := ''acs,wfc1'',
                   obsrules_junk := ['''', ''None'', ''default'', ''wfc1''],
                   obsrules_excl := [''aper#'', ''wfc2'']\<rparr>) \<and>
   py_replace '',,'' '','' '',,,f555w'' = '',,f555w'' \<and>
   get_obsmodes rules_dict no_files blank_heap 10 blank_graph ''acs,wfc1'' False =
     Inr (['',,f555w''],
          blank_graph\<lparr>obsmodes := ['',,f555w''], obsrules_key := ''acs,wfc1'',
                        obsrules_junk := ['''', ''None'', ''default'', ''wfc1''],
                        obsrules_excl := [''aper#'', ''wfc2'']\<rparr>) \<and>
   get_obsmodes rules_dict no_files blank_heap 10 blank_graph ''acs,wfc1'' True =
     Inr ([''acs,wfc1'', ''acs,wfc1,,f555w''],
          blank_graph\<lparr>obsmodes := [''acs,wfc1'', ''acs,wfc1,,f555w''],
                        obsrules_key := ''acs,wfc1'',
                        obsrules_junk := ['''', ''None'', ''default'', ''wfc1''],
                        obsrules_excl := [''aper#'', ''wfc2'']\<rparr>) \<and>
   py_contains '',,'' '',,f555w'' \<and>
   py_split CHR '','' ''acs,wfc1,,f555w'' = [''acs'', ''wfc1'', '''', ''f555w'']"
proof (intro conjI)
  show "recurse 10 blank_heap (Some 2) []
     (blank_graph\<lparr>obsrules_key := ''acs,wfc1'',
                   obsrules_junk := ['''', ''None'', ''default'', ''wfc1''],
                   obsrules_excl := [''aper#'', ''wfc2'']\<rparr>) =
   Inr (blank_graph\<lparr>obsmodes := ['',,,f555w''], obsrules_key := ''acs,wfc1'',
                   obsrules_junk := ['''', ''None'', ''default'', ''wfc1''],
                   obsrules_excl := [''aper#'', ''wfc2'']\<rparr>)"
    by (rule blank_recurse)
  show "py_replace '',,'' '','' '',,,f555w'' = '',,f555w''"
    by (simp add: py_replace_Cons py_replace_Nil)
  show "get_obsmodes rules_dict no_files blank_heap 10 blank_graph ''acs,wfc1'' False =
     Inr (['',,f555w''],
          blank_graph\<lparr>obsmodes := ['',,f555w''], obsrules_key := ''acs,wfc1'',
                        obsrules_junk := ['''', ''None'', ''default'', ''wfc1''],
                        obsrules_excl := [''aper#'', ''wfc2'']\<rparr>)"
    by (simp add: obsmodes_defs eval_defs walk.simps table_defs blank_heap_def blank_graph_def
        eval_nat_numeral)
  show "get_obsmodes rules_dict no_files blank_heap 10 blank_graph ''acs,wfc1'' True =
     Inr ([''acs,wfc1'', ''acs,wfc1,,f555w''],
          blank_graph\<lparr>obsmodes := [''acs,wfc1'', ''acs,wfc1,,f555w''],
                        obsrules_key := ''acs,wfc1'',
                        obsrules_junk := ['''', ''None'', ''default'', ''wfc1''],
                        obsrules_excl := [''aper#'', ''wfc2'']\<rparr>)"
    by (simp add: obsmodes_defs eval_defs walk.simps table_defs blank_heap_def blank_graph_def
        eval_nat_numeral)
  show "py_contains '',,'' '',,f555w''" by simp
  show "py_split CHR '','' ''acs,wfc1,,f555w'' = [''acs'', ''wfc1'', '''', ''f555w'']" by simp
qed

section \<open>Excluded keywords in the result\<close>

lemma tokens_of_keywords:
  "list_all (\<lambda>k. CHR '','' \<notin> set k) ks \<Longrightarrow> CHR '','' \<notin> set t \<Longrightarrow>
   py_split CHR '','' (t @ concat (map (\<lambda>k. '','' @ k) ks)) = t # ks"
proof (induction ks arbitrary: t)
  case Nil
  then show ?case by (simp add: py_split_none)
next
  case (Cons k ks)
  from Cons.prems have k: "CHR '','' \<notin> set k" and ks: "list_all (\<lambda>k. CHR '','' \<notin> set k) ks"
    by simp_all
  have "py_split CHR '','' (t @ CHR '','' # (k @ concat (map (\<lambda>k. '','' @ k) ks))) =
      t # py_split CHR '','' (k @ concat (map (\<lambda>k. '','' @ k) ks))"
    using Cons.prems(2) by (rule py_split_first)
  also have "py_split CHR '','' (k @ concat (map (\<lambda>k. '','' @ k) ks)) = k # ks"
    using ks k by (rule Cons.IH)
  finally show ?case by simp
qed

lemma chain_tokens:
  assumes "chain (\<lambda>k. CHR '','' \<notin> set k \<and> Q k) [] s"
  shows "\<forall>t\<in>set (py_split CHR '','' s). t = [] \<or> Q t"
proof -
  from assms obtain ks where ks: "list_all (\<lambda>k. CHR '','' \<notin> set k \<and> Q k) ks"
    and s: "s = [] @ concat (map (\<lambda>k. '','' @ k) ks)"
    unfolding chain_def by blast
  from ks have "list_all (\<lambda>k. CHR '','' \<notin> set k) ks" by (simp add: list_all_iff)
  from tokens_of_keywords [OF this, of "[]"] s have "py_split CHR '','' s = [] # ks" by simp
  with ks show ?thesis by (auto simp: list_all_iff)
qed

lemma replace_one_tokens:
  assumes "CHR '','' \<notin> set jk"
    and "\<forall>t\<in>set (py_split CHR '','' s). jk \<noteq> [] \<longrightarrow> suffix jk t \<longrightarrow> t = jk"
  shows "set (py_split CHR '','' (if jk = [] then py_replace '',,'' '','' s
                                  else py_replace (jk @ '','') [] s))
         \<subseteq> set (py_split CHR '','' s)"
proof (cases "jk = []")
  case True
  then show ?thesis using tokens_replace_empty [of s] by simp
next
  case False
  from assms(2) False
  have "list_all (\<lambda>t. suffix jk t \<longrightarrow> t = jk) (py_split CHR '','' s)"
    by (simp add: list_all_iff)
  from tokens_replace_junk [OF assms(1) False refl this] False show ?thesis by simp
qed

lemma strip_junk_tokens:
  "list_all (\<lambda>j. CHR '','' \<notin> set j) junks \<Longrightarrow>
   \<forall>s\<in>set obs. \<forall>t\<in>set (py_split CHR '','' s). \<forall>j\<in>set junks.
      j \<noteq> [] \<longrightarrow> suffix j t \<longrightarrow> t = j \<Longrightarrow>
   \<forall>s'\<in>set (strip_junk junks obs). \<exists>s\<in>set obs.
      set (py_split CHR '','' s') \<subseteq> set (py_split CHR '','' s)"
proof (induction junks arbitrary: obs)
  case Nil
  then show ?case by auto
next
  case (Cons jk junks)
  define f where "f = (\<lambda>s. if jk = [] then py_replace '',,'' '','' s
                            else py_replace (jk @ '','') [] s)"
  have unf: "strip_junk (jk # junks) obs = strip_junk junks (map f obs)"
    by (simp add: f_def)
  from Cons.prems(1) have jk: "CHR '','' \<notin> set jk"
    and rest: "list_all (\<lambda>j. CHR '','' \<notin> set j) junks" by simp_all
  have sub: "set (py_split CHR '','' (f s)) \<subseteq> set (py_split CHR '','' s)" if "s \<in> set obs" for s
    unfolding f_def
  proof (rule replace_one_tokens [OF jk])
    from Cons.prems(2) that
    show "\<forall>t\<in>set (py_split CHR '','' s). jk \<noteq> [] \<longrightarrow> suffix jk t \<longrightarrow> t = jk"
      by simp
  qed
  have pre: "\<forall>s\<in>set (map f obs). \<forall>t\<in>set (py_split CHR '','' s). \<forall>j\<in>set junks.
      j \<noteq> [] \<longrightarrow> suffix j t \<longrightarrow> t = j"
  proof (intro ballI impI)
    fix s1 t j
    assume s1: "s1 \<in> set (map f obs)" and t: "t \<in> set (py_split CHR '','' s1)"
      and j: "j \<in> set junks" "j \<noteq> []" "suffix j t"
    from s1 obtain s where s: "s \<in> set obs" "s1 = f s" by auto
    with t sub [OF s(1)] have "t \<in> set (py_split CHR '','' s)" by blast
    with Cons.prems(2) s(1) j show "t = j" by simp
  qed
  show ?case
  proof
    fix s'
    assume "s' \<in> set (strip_junk (jk # junks) obs)"
    then have "s' \<in> set (strip_junk junks (map f obs))" unfolding unf .
    with Cons.IH [OF rest pre] obtain s1 where
      s1: "s1 \<in> set (map f obs)" "set (py_split CHR '','' s') \<subseteq> set (py_split CHR '','' s1)"
      by blast
    from s1(1) obtain s where s: "s \<in> set obs" "s1 = f s" by auto
    with s1(2) sub [OF s(1)] have "set (py_split CHR '','' s') \<subseteq> set (py_split CHR '','' s)"
      by blast
    with s(1) show "\<exists>s\<in>set obs. set (py_split CHR '','' s') \<subseteq> set (py_split CHR '','' s)"
      by blast
  qed
qed

text \<open>
  Tables for the enumeration from \<open>B\<close>: \<open>top\<close> has the edge \<open>acs\<close> to \<open>A\<close> and \<open>A\<close> has \<open>wfc1\<close>
  to \<open>B\<close>. In \<open>kwd_heap k\<close> the node \<open>B\<close> has the one edge \<open>k\<close> to nothing, in \<open>excl_heap\<close>
  it has the edges \<open>wfc2\<close> and \<open>f555w\<close> to nothing. In \<open>fuse_heap\<close> the node \<open>B\<close> has the
  edge \<open>wfcNone\<close> to \<open>C\<close>, and \<open>C\<close> has the edge \<open>2\<close> to nothing.
\<close>

definition kwd_heap :: "string \<Rightarrow> heap" where
  "kwd_heap k r =
     (if r = 0 then mk_node ''top'' [plain ''acs'' (Some 1)]
      else if r = 1 then mk_node ''A'' [plain ''wfc1'' (Some 2)]
      else if r = 2 then mk_node ''B'' [plain k None]
      else Node '''')"

definition excl_heap :: heap where
  "excl_heap r =
     (if r = 0 then mk_node ''top'' [plain ''acs'' (Some 1)]
      else if r = 1 then mk_node ''A'' [plain ''wfc1'' (Some 2)]
      else if r = 2 then mk_node ''B'' [plain ''wfc2'' None, plain ''f555w'' None]
      else Node '''')"

definition fuse_heap :: heap where
  "fuse_heap r =
     (if r = 0 then mk_node ''top'' [plain ''acs'' (Some 1)]
      else if r = 1 then mk_node ''A'' [plain ''wfc1'' (Some 2)]
      else if r = 2 then mk_node ''B'' [plain ''wfcNone'' (Some 3)]
      else if r = 3 then mk_node ''C'' [plain ''2'' None]
      else Node '''')"

definition fuse_graph :: graph where
  "fuse_graph = \<lparr>nodes = [(''top'', 0), (''A'', 1), (''B'', 2), (''C'', 3)], topnode = Some 0,
                 obsmodes = [], obsrules_key = [], obsrules_junk = [], obsrules_excl = []\<rparr>"

lemmas kwd_defs = kwd_heap_def excl_heap_def fuse_heap_def fuse_graph_def

text \<open>
  Claim C1 as stated fails. \<open>recurse\<close> skips an edge whose keyword is a member of the
  exclude list, so a keyword that only contains an excluded one, here \<open>wfc2a\<close>, is
  returned. A keyword with a comma, here \<open>a,wfc2\<close>, is returned and splits into tokens
  of which one is excluded. And where a keyword ends in a junk keyword, here \<open>wfcNone\<close>,
  the replacement of \<open>None,\<close> joins it to the next keyword: \<open>,wfcNone,2\<close> becomes \<open>,wfc2\<close>.
\<close>

theorem excluded_keyword_returned:
  "map_sum id fst
     (get_obsmodes rules_dict no_files (kwd_heap ''wfc2a'') 10 acs_graph ''acs,wfc1'' False)
     = Inr ['',wfc2a''] \<and>
   py_contains ''wfc2'' '',wfc2a'' \<and>
   map_sum id fst
     (get_obsmodes rules_dict no_files (kwd_heap ''a,wfc2'') 10 acs_graph ''acs,wfc1'' False)
     = Inr ['',a,wfc2''] \<and>
   py_split CHR '','' '',a,wfc2'' = ['''', ''a'', ''wfc2''] \<and>
   map_sum id fst
     (get_obsmodes rules_dict no_files fuse_heap 10 fuse_graph ''acs,wfc1'' False)
     = Inr ['',wfcNone'', '',wfc2''] \<and>
   py_split CHR '','' '',wfc2'' = ['''', ''wfc2'']"
proof (intro conjI)
  show "map_sum id fst
     (get_obsmodes rules_dict no_files (kwd_heap ''wfc2a'') 10 acs_graph ''acs,wfc1'' False)
     = Inr ['',wfc2a'']"
    by (simp add: obsmodes_defs eval_defs walk.simps table_defs kwd_defs eval_nat_numeral)
  show "py_contains ''wfc2'' '',wfc2a''" by simp
  show "map_sum id fst
     (get_obsmodes rules_dict no_files (kwd_heap ''a,wfc2'') 10 acs_graph ''acs,wfc1'' False)
     = Inr ['',a,wfc2'']"
    by (simp add: obsmodes_defs eval_defs walk.simps table_defs kwd_defs eval_nat_numeral)
  show "py_split CHR '','' '',a,wfc2'' = ['''', ''a'', ''wfc2'']" by simp
  show "map_sum id fst
     (get_obsmodes rules_dict no_files fuse_heap 10 fuse_graph ''acs,wfc1'' False)
     = Inr ['',wfcNone'', '',wfc2'']"
    by (simp add: obsmodes_defs eval_defs walk.simps table_defs kwd_defs eval_nat_numeral)
  show "py_split CHR '','' '',wfc2'' = ['''', ''wfc2'']" by simp
qed

text \<open>
  Claim C1, as amended. Let no keyword of the table contain a comma, and let a keyword
  end in a junk keyword of the mode only when it is that junk keyword. Then the exclude
  list of the call is the default entry's list followed by the list of the mode's entry,
  and no string of the list that \<open>get_obsmodes\<close> returns, split at the commas, has a
  token in the exclude list.
\<close>

theorem excluded_tokens_absent:
  assumes ret: "get_obsmodes rules_dict w h limit g obsmode False = Inr (L, g')"
    and kws: "\<forall>r. list_all (\<lambda>e. CHR '','' \<notin> set (kwd e) \<and>
                 (\<forall>j\<in>set (obsrules_junk g'). j \<noteq> [] \<longrightarrow> suffix j (kwd e) \<longrightarrow> kwd e = j))
               (dict_values (edges (h r)))"
  shows "(\<exists>dflt r. dict_get rules_dict ''default'' = Some dflt \<and>
            dict_get rules_dict (rules_key rules_dict obsmode) = Some r \<and>
            obsrules_excl g' = exclude dflt @ exclude r) \<and>
         list_all (\<lambda>s. set (py_split CHR '','' s) \<inter> set (obsrules_excl g') = {}) L"
proof -
  from get_obsmodes_Inr [OF ret] obtain r dflt start self3 where
    r: "dict_get rules_dict (rules_key rules_dict obsmode) = Some r"
    and d: "dict_get rules_dict ''default'' = Some dflt"
    and rec: "recurse limit h (Some start) []
        (g\<lparr>obsmodes := [], obsrules_key := rules_key rules_dict obsmode,
           obsrules_junk := junk dflt @ junk r,
           obsrules_excl := exclude dflt @ exclude r\<rparr>) = Inr self3"
    and g': "g' = process None self3" and L: "L = obsmodes g'"
    by auto
  define J where "J = junk dflt @ junk r"
  define E where "E = exclude dflt @ exclude r"
  define Q where "Q = (\<lambda>k. (\<forall>j\<in>set J. j \<noteq> [] \<longrightarrow> suffix j k \<longrightarrow> k = j) \<and> k \<notin> set E)"
  define G where "G = (\<lambda>k. CHR '','' \<notin> set k \<and> (\<forall>j\<in>set J. j \<noteq> [] \<longrightarrow> suffix j k \<longrightarrow> k = j))"
  have keep: "obsrules_junk g' = obsrules_junk self3" "obsrules_excl g' = obsrules_excl self3"
    by (simp_all add: g' process_def)
  have pre: "obsrules_excl self3 = E \<and> obsrules_junk self3 = J"
    using recurse_chain(1) [OF rec, of "\<lambda>_. True"] by (simp add: list_all_iff J_def E_def)
  with keep have jg: "obsrules_junk g' = J" and eg: "obsrules_excl g' = E" by simp_all
  from kws have heap: "\<forall>r. list_all (\<lambda>e. G (kwd e)) (dict_values (edges (h r)))"
    unfolding jg G_def .
  from recurse_chain(1) [OF rec, of G, OF heap] obtain new where
    n: "obsmodes self3 = new"
      "list_all (chain (\<lambda>k. G k \<and> k \<notin> set (exclude dflt @ exclude r)) []) new"
    by auto
  have GQ: "(\<lambda>k. G k \<and> k \<notin> set (exclude dflt @ exclude r)) = (\<lambda>k. CHR '','' \<notin> set k \<and> Q k)"
    by (auto simp: G_def Q_def E_def)
  have tok: "t = [] \<or> Q t" if "s \<in> set new" and "t \<in> set (py_split CHR '','' s)" for s t
  proof -
    from n(2) that(1) have "chain (\<lambda>k. CHR '','' \<notin> set k \<and> Q k) [] s"
      unfolding GQ by (simp add: list_all_iff)
    from chain_tokens [OF this] that(2) show ?thesis by blast
  qed
  from rules_dict_entry [OF r] rules_dict_entry [OF d]
  have Jc: "list_all (\<lambda>j. CHR '','' \<notin> set j) J" and Ene: "list_all (\<lambda>x. x \<noteq> []) E"
    by (simp_all add: J_def E_def)
  have "\<forall>s\<in>set new. \<forall>t\<in>set (py_split CHR '','' s). \<forall>j\<in>set J.
      j \<noteq> [] \<longrightarrow> suffix j t \<longrightarrow> t = j"
  proof (intro ballI impI)
    fix s t j
    assume s: "s \<in> set new" and t: "t \<in> set (py_split CHR '','' s)"
      and j: "j \<in> set J" "j \<noteq> []" "suffix j t"
    from tok [OF s t] show "t = j"
    proof
      assume "t = []"
      with j(2,3) show ?thesis by simp
    next
      assume "Q t"
      with j show ?thesis by (simp add: Q_def)
    qed
  qed
  from strip_junk_tokens [OF Jc this]
  have sub: "\<forall>s'\<in>set (strip_junk J new). \<exists>s\<in>set new.
      set (py_split CHR '','' s') \<subseteq> set (py_split CHR '','' s)" .
  have Leq: "L = strip_junk J new"
    using pre n(1) by (simp add: L g' process_def)
  have none: "set (py_split CHR '','' s') \<inter> set E = {}" if "s' \<in> set L" for s'
  proof (rule ccontr)
    assume "set (py_split CHR '','' s') \<inter> set E \<noteq> {}"
    then obtain t where t: "t \<in> set (py_split CHR '','' s')" "t \<in> set E" by blast
    from that sub obtain s where s: "s \<in> set new"
      "set (py_split CHR '','' s') \<subseteq> set (py_split CHR '','' s)"
      unfolding Leq by blast
    with t(1) have "t \<in> set (py_split CHR '','' s)" by blast
    from tok [OF s(1) this] have "t = [] \<or> Q t" .
    moreover from Ene t(2) have "t \<noteq> []" by (auto simp: list_all_iff)
    ultimately have "Q t" by simp
    with t(2) show False by (simp add: Q_def)
  qed
  then have all: "list_all (\<lambda>s. set (py_split CHR '','' s) \<inter> set (obsrules_excl g') = {}) L"
    unfolding eg by (simp add: list_all_iff)
  from d r eg have "\<exists>dflt r. dict_get rules_dict ''default'' = Some dflt \<and>
            dict_get rules_dict (rules_key rules_dict obsmode) = Some r \<and>
            obsrules_excl g' = exclude dflt @ exclude r"
    unfolding E_def by blast
  with all show ?thesis by (rule conjI [rotated])
qed

lemma excl_obsmodes:
  "get_obsmodes rules_dict no_files excl_heap 10 acs_graph ''acs,wfc1'' False =
     Inr (['',f555w''],
          acs_graph\<lparr>obsmodes := ['',f555w''], obsrules_key := ''acs,wfc1'',
                      obsrules_junk := ['''', ''None'', ''default'', ''wfc1''],
                      obsrules_excl := [''aper#'', ''wfc2'']\<rparr>)"
  by (simp add: obsmodes_defs eval_defs walk.simps table_defs kwd_defs eval_nat_numeral)

lemma excl_keywords:
  "\<forall>r. list_all (\<lambda>e. CHR '','' \<notin> set (kwd e) \<and>
          (\<forall>j\<in>set ['''', ''None'', ''default'', ''wfc1''].
             j \<noteq> [] \<longrightarrow> suffix j (kwd e) \<longrightarrow> kwd e = j))
        (dict_values (edges (excl_heap r)))"
  by (simp add: dict_values_def table_defs kwd_defs suffix_Cons)

theorem excluded_tokens_absent_witness:
  "get_obsmodes rules_dict no_files excl_heap 10 acs_graph ''acs,wfc1'' False =
     Inr (['',f555w''],
          acs_graph\<lparr>obsmodes := ['',f555w''], obsrules_key := ''acs,wfc1'',
                      obsrules_junk := ['''', ''None'', ''default'', ''wfc1''],
                      obsrules_excl := [''aper#'', ''wfc2'']\<rparr>) \<and>
   set (map kwd (dict_values (edges (excl_heap 2)))) = {''wfc2'', ''f555w''} \<and>
   py_split CHR '','' '',f555w'' = ['''', ''f555w''] \<and>
   list_all (\<lambda>s. set (py_split CHR '','' s) \<inter> set [''aper#'', ''wfc2''] = {}) ['',f555w'']"
proof -
  have k: "\<forall>r. list_all (\<lambda>e. CHR '','' \<notin> set (kwd e) \<and>
          (\<forall>j\<in>set (obsrules_junk
                  (acs_graph\<lparr>obsmodes := ['',f555w''], obsrules_key := ''acs,wfc1'',
                      obsrules_junk := ['''', ''None'', ''default'', ''wfc1''],
                      obsrules_excl := [''aper#'', ''wfc2'']\<rparr>)).
             j \<noteq> [] \<longrightarrow> suffix j (kwd e) \<longrightarrow> kwd e = j))
        (dict_values (edges (excl_heap r)))"
    using excl_keywords by simp
  have e2: "set (map kwd (dict_values (edges (excl_heap 2)))) = {''wfc2'', ''f555w''}"
    by (simp add: dict_values_def table_defs kwd_defs)
  have sp: "py_split CHR '','' '',f555w'' = ['''', ''f555w'']" by simp
  from excluded_tokens_absent [OF excl_obsmodes k]
  have "list_all (\<lambda>s. set (py_split CHR '','' s) \<inter> set [''aper#'', ''wfc2''] = {}) ['',f555w'']"
    by simp
  with excl_obsmodes e2 sp show ?thesis by (intro conjI)
qed

end
